theory Spec2Isabelle
  imports Main "HOL-Library.AList"
begin

section \<open>Event debouncer (package watcher)\<close>

text \<open>
  The debouncer keeps at most one pending event per path in the map \<open>events\<close>, guarded by
  a mutex; every operation below is one critical section of the source. Instants are
  natural numbers (the reading of \<open>time.Now()\<close> is an argument of \<open>Add\<close>). A
  \<open>time.Timer\<close> created by \<open>time.AfterFunc(d.delay, ...)\<close> is represented by the
  instant at which it expires. The buffered channel \<open>output\<close> (field \<open>outputCh\<close>) is the sequence of events
  sent on it, oldest first: its capacity decides when a send returns, not what is sent.
\<close>

datatype EventType = EventCreate | EventModify | EventDelete | EventRename

record FileEvent =
  Path :: string
  EventType :: EventType
  Timestamp :: nat

record pendingEvent =
  event :: FileEvent
  timer :: nat

record Debouncer =
  delay :: nat
  events :: "string \<rightharpoonup> pendingEvent"
  outputCh :: "FileEvent list"
  stopped :: bool

definition NewDebouncer :: "nat \<Rightarrow> Debouncer" where
  "NewDebouncer delayMs =
     \<lparr>delay = delayMs * 1000000, events = Map.empty, outputCh = [], stopped = False\<rparr>"

text \<open>
  \<open>Add\<close>: returns at once when the debouncer is stopped. For a path that is already
  pending, the old timer is stopped, the types are coalesced by the source's
  three-armed conditional, the timestamp is refreshed and a new timer is armed.
\<close>

definition Add :: "nat \<Rightarrow> string \<Rightarrow> EventType \<Rightarrow> Debouncer \<Rightarrow> Debouncer" where
  "Add now path eventType d =
     (if stopped d then d
      else
        let ev = \<lparr>Path = path, EventType = eventType, Timestamp = now\<rparr> in
        case events d path of
          Some pending \<Rightarrow>
            let ty =
                  (if eventType = EventDelete then EventDelete
                   else if EventType (event pending) = EventCreate \<and> eventType = EventModify
                     then EventType (event pending)
                   else if EventType (event pending) \<noteq> EventDelete then eventType
                   else EventType (event pending));
                pending' =
                  pending\<lparr>event := (event pending)\<lparr>EventType := ty, Timestamp := Timestamp ev\<rparr>,
                          timer := now + delay d\<rparr>
            in d\<lparr>events := (events d)(path \<mapsto> pending')\<rparr>
        | None \<Rightarrow>
            d\<lparr>events := (events d)(path \<mapsto> \<lparr>event = ev, timer = now + delay d\<rparr>)\<rparr>)"

text \<open>
  \<open>emit\<close>: takes the pending event of the path out of the map and sends it on the
  output channel; when the stop channel is closed the event is dropped instead.
\<close>

definition emit :: "string \<Rightarrow> Debouncer \<Rightarrow> Debouncer" where
  "emit path d =
     (case events d path of
        None \<Rightarrow> d
      | Some pending \<Rightarrow>
          let d' = d\<lparr>events := (events d)(path := None)\<rparr> in
          if stopped d then d' else d'\<lparr>outputCh := outputCh d @ [event pending]\<rparr>)"

text \<open>The callback of the timer held for a path runs \<open>emit\<close> once the timer has expired.\<close>

definition timer_fires :: "nat \<Rightarrow> string \<Rightarrow> Debouncer \<Rightarrow> Debouncer" where
  "timer_fires now path d =
     (case events d path of
        None \<Rightarrow> d
      | Some pending \<Rightarrow> if timer pending \<le> now then emit path d else d)"

definition Stop :: "Debouncer \<Rightarrow> Debouncer" where
  "Stop d = d\<lparr>stopped := True, events := Map.empty\<rparr>"

text \<open>
  A burst: consecutive calls \<open>Add\<close> for one path, each with its clock reading. Before
  each call the timer of the path has had its chance to run: if it had expired by then,
  the pending event was emitted and the call starts a new pending event.
\<close>

fun burst :: "(nat \<times> EventType) list \<Rightarrow> string \<Rightarrow> Debouncer \<Rightarrow> Debouncer" where
  "burst [] path d = d"
| "burst ((now, eventType) # rest) path d =
     burst rest path (Add now path eventType (timer_fires now path d))"

text \<open>
  The calls at instants \<open>ts\<close> fall within one quiet window when each of them comes
  before the expiry of the timer armed by the call before it; \<open>expiry\<close> is the expiry
  of the timer currently armed.
\<close>

fun quiet :: "nat \<Rightarrow> nat \<Rightarrow> nat list \<Rightarrow> bool" where
  "quiet dl expiry [] = True"
| "quiet dl expiry (t # ts) = (t < expiry \<and> quiet dl (t + dl) ts)"

section \<open>Local state cache (package sync, state.go)\<close>

datatype error =
  ErrNotExist | ErrIO | ErrJSON | ErrStateDir | ErrStat | ErrHash | ErrParse | ErrRead | ErrDB

record FileState =
  Hash :: string
  LastSynced :: nat
  LastModified :: nat
  SizeBytes :: int

record SyncState =
  VaultPath :: string
  LastFullSync :: "nat option"
  Files :: "string \<rightharpoonup> FileState"

record StateTracker =
  state :: SyncState
  filePath :: string
  dirty :: bool

text \<open>
  The directory holding the snapshot: each path reads as its bytes or as an error
  (\<open>ErrNotExist\<close> for a missing file). \<open>os.WriteFile\<close> opens the named file with
  \<open>O_WRONLY|O_CREATE|O_TRUNC\<close>, writes the data and closes it; the environment decides
  how far it gets: the open fails (nothing changes), the write stops after \<open>k\<close> bytes
  (a write error or the end of the process; the file was truncated by the open), or it
  completes.
\<close>

type_synonym disk = "string \<Rightarrow> error + string"

datatype write_outcome = OpenFails | Interrupted nat | Completed

definition os_ReadFile :: "disk \<Rightarrow> string \<Rightarrow> error + string" where
  "os_ReadFile dk name = dk name"

definition os_WriteFile :: "write_outcome \<Rightarrow> string \<Rightarrow> string \<Rightarrow> disk \<Rightarrow> error option \<times> disk" where
  "os_WriteFile oc name data dk =
     (case oc of
        OpenFails \<Rightarrow> (Some ErrIO, dk)
      | Interrupted k \<Rightarrow> (Some ErrIO, dk(name := Inr (take k data)))
      | Completed \<Rightarrow> (None, dk(name := Inr data)))"

text \<open>
  What the sync core takes from libraries and from its surroundings, fixed during one
  operation: SHA-256 (\<open>HashString\<close>), \<open>filepath.Join\<close>, the JSON codec of the snapshot,
  \<open>doublestar.Match\<close>, the result of \<open>config.GetStateDir()\<close>, the outcome of the next
  snapshot write; the vault as the file system shows it (its tree for \<open>filepath.WalkDir\<close>,
  and per relative path the results of \<open>os.Stat\<close>, \<open>HashFile\<close>, \<open>Parser.ParseFile\<close>
  and \<open>os.ReadFile\<close>); which remote store calls fail; the clock.
\<close>

datatype fsnode = FileNode string | DirNode string "fsnode list"

datatype stat_result = StatNotExist | StatError | StatInfo bool int nat

datatype db_call =
    UpsertNoteCall string string
  | UpsertAttachmentCall string string
  | DeleteNoteCall string
  | DeleteAttachmentCall string
  | GetAllNoteHashesCall
  | GetAllAttachmentHashesCall
  | BatchDeleteNotesCall "string list"
  | BatchDeleteAttachmentsCall "string list"

record Env =
  HashString :: "string \<Rightarrow> string"
  Join :: "string \<Rightarrow> string \<Rightarrow> string"
  Marshal :: "SyncState \<Rightarrow> error + string"
  Unmarshal :: "string \<Rightarrow> error + SyncState"
  Match :: "string \<Rightarrow> string \<Rightarrow> error + bool"
  GetStateDir :: "error + string"
  writeOutcome :: write_outcome
  vaultTree :: fsnode
  Stat :: "string \<Rightarrow> stat_result"
  HashFile :: "string \<Rightarrow> error + string"
  ParseFile :: "string \<Rightarrow> error option"
  ReadFile :: "string \<Rightarrow> error option"
  dbFails :: "db_call \<Rightarrow> bool"
  Now :: nat

definition emptyState :: "string \<Rightarrow> SyncState" where
  "emptyState vaultPath = \<lparr>VaultPath = vaultPath, LastFullSync = None, Files = Map.empty\<rparr>"

text \<open>\<open>load\<close>: read the file, decode it, install the decoded state; any error leaves the
  tracker as it was. (A decoded \<open>nil\<close> file map is replaced by an empty one; both read
  as the empty map here.)\<close>

definition load :: "Env \<Rightarrow> disk \<Rightarrow> StateTracker \<Rightarrow> error option \<times> StateTracker" where
  "load env dk st =
     (case os_ReadFile dk (filePath st) of
        Inl err \<Rightarrow> (Some err, st)
      | Inr data \<Rightarrow>
          (case Unmarshal env data of
             Inl err \<Rightarrow> (Some err, st)
           | Inr decoded \<Rightarrow> (None, st\<lparr>state := decoded\<rparr>)))"

definition NewStateTracker :: "Env \<Rightarrow> disk \<Rightarrow> string \<Rightarrow> error + StateTracker" where
  "NewStateTracker env dk vaultPath =
     (case GetStateDir env of
        Inl err \<Rightarrow> Inl err
      | Inr stateDir \<Rightarrow>
          let vaultHash = take 12 (HashString env vaultPath);
              fp = Join env stateDir (''state-'' @ vaultHash @ ''.json'');
              st0 = \<lparr>state = emptyState vaultPath, filePath = fp, dirty = False\<rparr>;
              st1 = snd (load env dk st0);
              st2 = (if VaultPath (state st1) \<noteq> vaultPath
                     then st1\<lparr>state := emptyState vaultPath\<rparr> else st1)
          in Inr st2)"

text \<open>\<open>Save\<close>: nothing to do unless dirty; otherwise encode the state and write it to
  \<open>filePath\<close> with \<open>os.WriteFile\<close>; the dirty flag is cleared only after a write that
  returned no error.\<close>

definition Save :: "Env \<Rightarrow> StateTracker \<Rightarrow> disk \<Rightarrow> error option \<times> StateTracker \<times> disk" where
  "Save env st dk =
     (if \<not> dirty st then (None, st, dk)
      else
        case Marshal env (state st) of
          Inl err \<Rightarrow> (Some err, st, dk)
        | Inr data \<Rightarrow>
            (case os_WriteFile (writeOutcome env) (filePath st) data dk of
               (Some err, dk') \<Rightarrow> (Some err, st, dk')
             | (None, dk') \<Rightarrow> (None, st\<lparr>dirty := False\<rparr>, dk')))"

definition GetFileState :: "StateTracker \<Rightarrow> string \<Rightarrow> FileState option" where
  "GetFileState st path = Files (state st) path"

definition SetFileState :: "string \<Rightarrow> FileState \<Rightarrow> StateTracker \<Rightarrow> StateTracker" where
  "SetFileState path fs st =
     st\<lparr>state := (state st)\<lparr>Files := (Files (state st))(path \<mapsto> fs)\<rparr>, dirty := True\<rparr>"

definition RemoveFileState :: "string \<Rightarrow> StateTracker \<Rightarrow> StateTracker" where
  "RemoveFileState path st =
     st\<lparr>state := (state st)\<lparr>Files := (Files (state st))(path := None)\<rparr>, dirty := True\<rparr>"

definition SetLastFullSync :: "nat \<Rightarrow> StateTracker \<Rightarrow> StateTracker" where
  "SetLastFullSync t st = st\<lparr>state := (state st)\<lparr>LastFullSync := Some t\<rparr>, dirty := True\<rparr>"

definition NeedsSync :: "StateTracker \<Rightarrow> string \<Rightarrow> string \<Rightarrow> bool" where
  "NeedsSync st path currentHash =
     (case Files (state st) path of
        None \<Rightarrow> True
      | Some fs \<Rightarrow> Hash fs \<noteq> currentHash)"

definition Clear :: "StateTracker \<Rightarrow> StateTracker" where
  "Clear st = st\<lparr>state := (state st)\<lparr>Files := Map.empty, LastFullSync := None\<rparr>, dirty := True\<rparr>"

section \<open>Remote store (package db)\<close>

text \<open>
  The two tables, each as its rows \<open>(path, content_hash)\<close> (the columns the sync core
  reads back), and the log of the calls made on the store, oldest first. A call that
  fails leaves the tables as they were.
\<close>

type_synonym table = "(string \<times> string) list"

record DB =
  vault_notes :: table
  vault_attachments :: table
  calls :: "db_call list"

definition UpsertNote :: "Env \<Rightarrow> string \<Rightarrow> string \<Rightarrow> DB \<Rightarrow> error option \<times> DB" where
  "UpsertNote env path contentHash d =
     (let d1 = d\<lparr>calls := calls d @ [UpsertNoteCall path contentHash]\<rparr> in
      if dbFails env (UpsertNoteCall path contentHash) then (Some ErrDB, d1)
      else (None, d1\<lparr>vault_notes := AList.update path contentHash (vault_notes d1)\<rparr>))"

definition UpsertAttachment :: "Env \<Rightarrow> string \<Rightarrow> string \<Rightarrow> DB \<Rightarrow> error option \<times> DB" where
  "UpsertAttachment env path contentHash d =
     (let d1 = d\<lparr>calls := calls d @ [UpsertAttachmentCall path contentHash]\<rparr> in
      if dbFails env (UpsertAttachmentCall path contentHash) then (Some ErrDB, d1)
      else (None, d1\<lparr>vault_attachments := AList.update path contentHash (vault_attachments d1)\<rparr>))"

definition DeleteNote :: "Env \<Rightarrow> string \<Rightarrow> DB \<Rightarrow> error option \<times> DB" where
  "DeleteNote env path d =
     (let d1 = d\<lparr>calls := calls d @ [DeleteNoteCall path]\<rparr> in
      if dbFails env (DeleteNoteCall path) then (Some ErrDB, d1)
      else (None, d1\<lparr>vault_notes := AList.delete path (vault_notes d1)\<rparr>))"

definition DeleteAttachment :: "Env \<Rightarrow> string \<Rightarrow> DB \<Rightarrow> error option \<times> DB" where
  "DeleteAttachment env path d =
     (let d1 = d\<lparr>calls := calls d @ [DeleteAttachmentCall path]\<rparr> in
      if dbFails env (DeleteAttachmentCall path) then (Some ErrDB, d1)
      else (None, d1\<lparr>vault_attachments := AList.delete path (vault_attachments d1)\<rparr>))"

text \<open>A Go map filled by \<open>m[k] = v\<close> for each row in turn.\<close>

definition putAll :: "table \<Rightarrow> (string \<times> string) list \<Rightarrow> table" where
  "putAll m rows = fold (\<lambda>(k, v). AList.update k v) rows m"

definition GetAllNoteHashes :: "Env \<Rightarrow> DB \<Rightarrow> (error + table) \<times> DB" where
  "GetAllNoteHashes env d =
     (let d1 = d\<lparr>calls := calls d @ [GetAllNoteHashesCall]\<rparr> in
      if dbFails env GetAllNoteHashesCall then (Inl ErrDB, d1)
      else (Inr (putAll [] (vault_notes d1)), d1))"

definition GetAllAttachmentHashes :: "Env \<Rightarrow> DB \<Rightarrow> (error + table) \<times> DB" where
  "GetAllAttachmentHashes env d =
     (let d1 = d\<lparr>calls := calls d @ [GetAllAttachmentHashesCall]\<rparr> in
      if dbFails env GetAllAttachmentHashesCall then (Inl ErrDB, d1)
      else (Inr (putAll [] (vault_attachments d1)), d1))"

definition BatchDeleteNotes :: "Env \<Rightarrow> string list \<Rightarrow> DB \<Rightarrow> error option \<times> DB" where
  "BatchDeleteNotes env paths d =
     (if paths = [] then (None, d)
      else
        let d1 = d\<lparr>calls := calls d @ [BatchDeleteNotesCall paths]\<rparr> in
        if dbFails env (BatchDeleteNotesCall paths) then (Some ErrDB, d1)
        else (None, d1\<lparr>vault_notes := filter (\<lambda>(k, v). k \<notin> set paths) (vault_notes d1)\<rparr>))"

definition BatchDeleteAttachments :: "Env \<Rightarrow> string list \<Rightarrow> DB \<Rightarrow> error option \<times> DB" where
  "BatchDeleteAttachments env paths d =
     (if paths = [] then (None, d)
      else
        let d1 = d\<lparr>calls := calls d @ [BatchDeleteAttachmentsCall paths]\<rparr> in
        if dbFails env (BatchDeleteAttachmentsCall paths) then (Some ErrDB, d1)
        else (None, d1\<lparr>vault_attachments :=
                          filter (\<lambda>(k, v). k \<notin> set paths) (vault_attachments d1)\<rparr>))"

section \<open>Sync engine (package sync)\<close>

record Config =
  cfgVaultPath :: string
  IgnorePatterns :: "string list"
  IncludePatterns :: "string list"
  RetryAttempts :: int
  MaxBinarySizeMB :: int

text \<open>The engine: the source's field \<open>state\<close> is \<open>tracker\<close> here.\<close>

record Engine =
  db :: DB
  config :: Config
  tracker :: StateTracker
  retryQueue :: "string \<rightharpoonup> int"
  maxBinarySize :: int

text \<open>\<open>strings.ToLower\<close> on the ASCII letters, and \<open>strings.HasSuffix\<close>.\<close>

definition toLowerChar :: "char \<Rightarrow> char" where
  "toLowerChar c =
     (case map_of (zip ''ABCDEFGHIJKLMNOPQRSTUVWXYZ'' ''abcdefghijklmnopqrstuvwxyz'') c of
        Some l \<Rightarrow> l
      | None \<Rightarrow> c)"

definition ToLower :: "string \<Rightarrow> string" where
  "ToLower s = map toLowerChar s"

definition HasSuffix :: "string \<Rightarrow> string \<Rightarrow> bool" where
  "HasSuffix s suffix =
     (length s \<ge> length suffix \<and> drop (length s - length suffix) s = suffix)"

definition isMarkdown :: "string \<Rightarrow> bool" where
  "isMarkdown relPath = HasSuffix (ToLower relPath) ''.md''"

text \<open>One pass over a pattern list: a pattern that does not compile is skipped, the
  first match ends the loop.\<close>

fun matchesAny :: "Env \<Rightarrow> string list \<Rightarrow> string \<Rightarrow> bool" where
  "matchesAny env [] relPath = False"
| "matchesAny env (pattern # rest) relPath =
     (case Match env pattern relPath of
        Inl err \<Rightarrow> matchesAny env rest relPath
      | Inr matched \<Rightarrow> if matched then True else matchesAny env rest relPath)"

definition shouldIgnore :: "Env \<Rightarrow> Config \<Rightarrow> string \<Rightarrow> bool" where
  "shouldIgnore env cfg relPath =
     (if matchesAny env (IgnorePatterns cfg) relPath then True
      else if IncludePatterns cfg \<noteq> []
        then (if matchesAny env (IncludePatterns cfg) relPath then False else True)
      else False)"

definition syncNote :: "Env \<Rightarrow> string \<Rightarrow> string \<Rightarrow> int \<Rightarrow> Engine \<Rightarrow> error option \<times> Engine" where
  "syncNote env relPath hash fsize e =
     (case ParseFile env relPath of
        Some err \<Rightarrow> (Some ErrParse, e)
      | None \<Rightarrow>
          (case UpsertNote env relPath hash (db e) of
             (err, d') \<Rightarrow> (err, e\<lparr>db := d'\<rparr>)))"

definition syncAttachment :: "Env \<Rightarrow> string \<Rightarrow> string \<Rightarrow> int \<Rightarrow> Engine \<Rightarrow> error option \<times> Engine" where
  "syncAttachment env relPath hash fsize e =
     (if fsize > maxBinarySize e then (None, e)
      else
        case ReadFile env relPath of
          Some err \<Rightarrow> (Some ErrRead, e)
        | None \<Rightarrow>
            (case UpsertAttachment env relPath hash (db e) of
               (err, d') \<Rightarrow> (err, e\<lparr>db := d'\<rparr>)))"

definition upsertFile :: "Env \<Rightarrow> string \<Rightarrow> Engine \<Rightarrow> error option \<times> Engine" where
  "upsertFile env relPath e =
     (case Stat env relPath of
        StatNotExist \<Rightarrow> (None, e)
      | StatError \<Rightarrow> (Some ErrStat, e)
      | StatInfo isDir fsize modTime \<Rightarrow>
          if isDir then (None, e)
          else if shouldIgnore env (config e) relPath then (None, e)
          else
            case HashFile env relPath of
              Inl err \<Rightarrow> (Some ErrHash, e)
            | Inr hash \<Rightarrow>
                if \<not> NeedsSync (tracker e) relPath hash then (None, e)
                else
                  case (if isMarkdown relPath then syncNote env relPath hash fsize e
                        else syncAttachment env relPath hash fsize e) of
                    (Some err, e1) \<Rightarrow> (Some err, e1)
                  | (None, e1) \<Rightarrow>
                      (None, e1\<lparr>tracker :=
                         SetFileState relPath
                           \<lparr>Hash = hash, LastSynced = Now env, LastModified = modTime,
                            SizeBytes = fsize\<rparr>
                           (tracker e1)\<rparr>))"

definition RemoveFile :: "Env \<Rightarrow> string \<Rightarrow> Engine \<Rightarrow> error option \<times> Engine" where
  "RemoveFile env relPath e =
     (case (if isMarkdown relPath then DeleteNote env relPath (db e)
            else DeleteAttachment env relPath (db e)) of
        (Some err, d') \<Rightarrow> (Some err, e\<lparr>db := d'\<rparr>)
      | (None, d') \<Rightarrow> (None, e\<lparr>db := d', tracker := RemoveFileState relPath (tracker e)\<rparr>))"

definition SyncFile :: "Env \<Rightarrow> string \<Rightarrow> EventType \<Rightarrow> Engine \<Rightarrow> error option \<times> Engine" where
  "SyncFile env relPath eventType e =
     (case eventType of
        EventDelete \<Rightarrow> RemoveFile env relPath e
      | EventCreate \<Rightarrow> upsertFile env relPath e
      | EventModify \<Rightarrow> upsertFile env relPath e
      | EventRename \<Rightarrow> (None, e))"

subsection \<open>Full reconciliation\<close>

text \<open>
  \<open>filepath.WalkDir\<close> over the vault, with the source's callback: the path relative to
  the root (\<open>.\<close> for the root itself), an ignored directory is not descended into
  (\<open>SkipDir\<close>), an ignored file and a directory add nothing, any other file is appended.
  Entries that the walk reports with an error are skipped by the callback and are no
  part of the tree. The callback returns no error of its own, so the walk returns none.
\<close>

fun nodeName :: "fsnode \<Rightarrow> string" where
  "nodeName (FileNode name) = name"
| "nodeName (DirNode name children) = name"

definition childRel :: "string \<Rightarrow> string \<Rightarrow> string" where
  "childRel parentRel name = (if parentRel = ''.'' then name else parentRel @ ''/'' @ name)"

fun walk :: "Env \<Rightarrow> Config \<Rightarrow> string \<Rightarrow> fsnode \<Rightarrow> string list" where
  "walk env cfg relPath (FileNode name) =
     (if shouldIgnore env cfg relPath then [] else [relPath])"
| "walk env cfg relPath (DirNode name children) =
     (if shouldIgnore env cfg relPath then []
      else concat (map (\<lambda>c. walk env cfg (childRel relPath (nodeName c)) c) children))"

definition collectLocalFiles :: "Env \<Rightarrow> Engine \<Rightarrow> string list" where
  "collectLocalFiles env e = walk env (config e) ''.'' (vaultTree env)"

definition mergeHashes :: "table \<Rightarrow> table \<Rightarrow> table" where
  "mergeHashes dbNoteHashes dbAttachHashes = putAll (putAll [] dbNoteHashes) dbAttachHashes"

text \<open>The scan loop: a file whose hash cannot be computed is passed over (\<open>continue\<close>)
  before it is entered into \<open>localHashes\<close>; the others are entered, and appended to
  \<open>toSync\<close> when the remote inventory has no such path or another hash for it.\<close>

fun scanLocal ::
  "Env \<Rightarrow> table \<Rightarrow> string list \<Rightarrow> (string \<rightharpoonup> string) \<times> string list
     \<Rightarrow> (string \<rightharpoonup> string) \<times> string list" where
  "scanLocal env dbHashes [] (localHashes, toSync) = (localHashes, toSync)"
| "scanLocal env dbHashes (relPath # rest) (localHashes, toSync) =
     (case HashFile env relPath of
        Inl err \<Rightarrow> scanLocal env dbHashes rest (localHashes, toSync)
      | Inr hash \<Rightarrow>
          scanLocal env dbHashes rest
            (localHashes(relPath \<mapsto> hash),
             if map_of dbHashes relPath \<noteq> Some hash then toSync @ [relPath] else toSync))"

definition findDeleted :: "table \<Rightarrow> (string \<rightharpoonup> string) \<Rightarrow> string list" where
  "findDeleted dbHashes localHashes = filter (\<lambda>dbPath. localHashes dbPath = None) (map fst dbHashes)"

text \<open>The sync loop: a failed file gets retry count \<open>0\<close> in the retry queue and the loop
  goes on with the next file.\<close>

fun syncLoop :: "Env \<Rightarrow> string list \<Rightarrow> Engine \<Rightarrow> Engine" where
  "syncLoop env [] e = e"
| "syncLoop env (relPath # rest) e =
     (case upsertFile env relPath e of
        (Some err, e1) \<Rightarrow> syncLoop env rest (e1\<lparr>retryQueue := (retryQueue e1)(relPath \<mapsto> 0)\<rparr>)
      | (None, e1) \<Rightarrow> syncLoop env rest e1)"

text \<open>The delete phase: the paths are split by suffix, each non-empty part goes to its
  batch delete (an error is logged, nothing more), then every path leaves the cache.\<close>

definition deleteRemoved :: "Env \<Rightarrow> string list \<Rightarrow> Engine \<Rightarrow> Engine" where
  "deleteRemoved env toDelete e =
     (let notesToDelete = filter isMarkdown toDelete;
          attachmentsToDelete = filter (\<lambda>p. \<not> isMarkdown p) toDelete;
          d1 = (if notesToDelete \<noteq> [] then snd (BatchDeleteNotes env notesToDelete (db e))
                else db e);
          d2 = (if attachmentsToDelete \<noteq> []
                then snd (BatchDeleteAttachments env attachmentsToDelete d1) else d1)
      in e\<lparr>db := d2, tracker := fold RemoveFileState toDelete (tracker e)\<rparr>)"

text \<open>The sync set and the delete set that a run computes from the engine and the
  inventory it fetched.\<close>

definition syncSet :: "Env \<Rightarrow> Engine \<Rightarrow> table \<Rightarrow> string list" where
  "syncSet env e dbHashes = snd (scanLocal env dbHashes (collectLocalFiles env e) (Map.empty, []))"

definition deleteSet :: "Env \<Rightarrow> Engine \<Rightarrow> table \<Rightarrow> string list" where
  "deleteSet env e dbHashes =
     findDeleted dbHashes (fst (scanLocal env dbHashes (collectLocalFiles env e) (Map.empty, [])))"

definition FullReconcile :: "Env \<Rightarrow> Engine \<times> disk \<Rightarrow> error option \<times> Engine \<times> disk" where
  "FullReconcile env ed =
     (case ed of (e, dk) \<Rightarrow>
      case GetAllNoteHashes env (db e) of
        (Inl err, d1) \<Rightarrow> (Some err, e\<lparr>db := d1\<rparr>, dk)
      | (Inr dbNoteHashes, d1) \<Rightarrow>
          (case GetAllAttachmentHashes env d1 of
             (Inl err, d2) \<Rightarrow> (Some err, e\<lparr>db := d2\<rparr>, dk)
           | (Inr dbAttachHashes, d2) \<Rightarrow>
               let e2 = e\<lparr>db := d2\<rparr>;
                   dbHashes = mergeHashes dbNoteHashes dbAttachHashes;
                   toSync = syncSet env e2 dbHashes;
                   toDelete = deleteSet env e2 dbHashes;
                   e3 = (if toSync \<noteq> [] then syncLoop env toSync e2 else e2);
                   e4 = (if toDelete \<noteq> [] then deleteRemoved env toDelete e3 else e3);
                   e5 = e4\<lparr>tracker := SetLastFullSync (Now env) (tracker e4)\<rparr>
               in case Save env (tracker e5) dk of
                    (err, st', dk') \<Rightarrow> (None, e5\<lparr>tracker := st'\<rparr>, dk')))"

text \<open>The inventory a run of \<open>FullReconcile\<close> fetches from the store of an engine.\<close>

definition inventory :: "Engine \<Rightarrow> table" where
  "inventory e =
     mergeHashes (putAll [] (vault_notes (db e))) (putAll [] (vault_attachments (db e)))"

section \<open>An example vault\<close>

text \<open>A vault with three notes and one large image, a snapshot on disk, and an engine
  whose cache and remote store know the first note.\<close>

definition exState :: SyncState where
  "exState = \<lparr>VaultPath = ''/vault'', LastFullSync = None,
              Files = [''a.md'' \<mapsto> \<lparr>Hash = ''h-a'', LastSynced = 5, LastModified = 4, SizeBytes = 10\<rparr>]\<rparr>"

definition exEnv :: Env where
  "exEnv = \<lparr>HashString = (\<lambda>s. ''0123456789abcdef''),
            Join = (\<lambda>dir name. dir @ ''/'' @ name),
            Marshal = (\<lambda>s. Inr ''new-snapshot''),
            Unmarshal = (\<lambda>data. if data = ''old-snapshot'' then Inr exState else Inl ErrJSON),
            Match = (\<lambda>pattern name. Inr (pattern = name)),
            GetStateDir = Inr ''/cfg'',
            writeOutcome = Completed,
            vaultTree = DirNode ''vault''
              [FileNode ''a.md'', FileNode ''b.md'', FileNode ''big.png'', FileNode ''c.md''],
            Stat = (\<lambda>p. if p = ''a.md'' then StatInfo False 10 4
                        else if p = ''b.md'' then StatInfo False 20 6
                        else if p = ''big.png'' then StatInfo False 5000 7
                        else if p = ''c.md'' then StatInfo False 30 8
                        else StatNotExist),
            HashFile = (\<lambda>p. if p = ''a.md'' then Inr ''h-a''
                            else if p = ''b.md'' then Inr ''h-b''
                            else if p = ''big.png'' then Inr ''h-big''
                            else if p = ''c.md'' then Inr ''h-c''
                            else Inl ErrNotExist),
            ParseFile = (\<lambda>p. None),
            ReadFile = (\<lambda>p. None),
            dbFails = (\<lambda>c. False),
            Now = 1000\<rparr>"

definition exDisk :: disk where
  "exDisk = (\<lambda>name. if name = ''/cfg/state-0123456789ab.json'' then Inr ''old-snapshot''
                     else Inl ErrNotExist)"

definition exTracker :: StateTracker where
  "exTracker = \<lparr>state = exState, filePath = ''/cfg/state-0123456789ab.json'', dirty = True\<rparr>"

definition exEngine :: Engine where
  "exEngine = \<lparr>db = \<lparr>vault_notes = [(''a.md'', ''h-a'')], vault_attachments = [], calls = []\<rparr>,
               config = \<lparr>cfgVaultPath = ''/vault'', IgnorePatterns = [], IncludePatterns = [],
                         RetryAttempts = 3, MaxBinarySizeMB = 0\<rparr>,
               tracker = exTracker, retryQueue = Map.empty, maxBinarySize = 1024\<rparr>"

text \<open>The same surroundings, with a note that cannot be read, with a note that is gone
  between the stat and the hash, and with a store that rejects the upsert of one note.\<close>

definition exEnvUnreadable :: Env where
  "exEnvUnreadable =
     exEnv\<lparr>HashFile := (\<lambda>p. if p = ''a.md'' then Inl ErrIO else HashFile exEnv p)\<rparr>"

definition exEnvVanishing :: Env where
  "exEnvVanishing =
     exEnv\<lparr>HashFile := (\<lambda>p. if p = ''b.md'' then Inl ErrNotExist else HashFile exEnv p)\<rparr>"

definition exEnvFailing :: Env where
  "exEnvFailing = exEnv\<lparr>dbFails := (\<lambda>c. c = UpsertNoteCall ''b.md'' ''h-b'')\<rparr>"

section \<open>Notions used in the proofs\<close>

text \<open>What an upsert of a path reads and writes of an engine (apart from the call log):
  the configuration, the size limit, the cache entry of the path and its rows in the two
  tables. The calls an upsert of a path adds to the log. An engine after the two
  inventory queries of a run.\<close>

definition pathView ::
  "string \<Rightarrow> Engine \<Rightarrow> Config \<times> int \<times> FileState option \<times> string option \<times> string option" where
  "pathView p e =
     (config e, maxBinarySize e, Files (state (tracker e)) p,
      map_of (vault_notes (db e)) p, map_of (vault_attachments (db e)) p)"

definition newCalls :: "Env \<Rightarrow> string \<Rightarrow> Engine \<Rightarrow> db_call list" where
  "newCalls env p e = drop (length (calls (db e))) (calls (db (snd (upsertFile env p e))))"

definition afterQueries :: "Engine \<Rightarrow> Engine" where
  "afterQueries e =
     e\<lparr>db := (db e)\<lparr>calls := calls (db e) @ [GetAllNoteHashesCall, GetAllAttachmentHashesCall]\<rparr>\<rparr>"

text \<open>What the migrations require of the two tables: the path is unique in each
  (\<open>path TEXT UNIQUE NOT NULL\<close> in both), and a path of the notes table ends in
  \<open>.md\<close> (the check \<open>valid_path\<close> of \<open>vault_notes\<close>).\<close>

definition schemaConstraints :: "DB \<Rightarrow> bool" where
  "schemaConstraints d \<longleftrightarrow>
     distinct (map fst (vault_notes d)) \<and> distinct (map fst (vault_attachments d)) \<and>
     (\<forall>p \<in> fst ` set (vault_notes d). isMarkdown p)"

text \<open>A store whose rows lie in the table that the suffix of their path selects: on top
  of the schema, no path of the attachments table is a note path. The schema does not
  require this of \<open>vault_attachments\<close>; it holds of a store that only the upserts of
  this engine have written, and the upserts and deletes of the engine keep it.\<close>

definition partitionedBySuffix :: "DB \<Rightarrow> bool" where
  "partitionedBySuffix d \<longleftrightarrow>
     schemaConstraints d \<and> (\<forall>p \<in> fst ` set (vault_attachments d). \<not> isMarkdown p)"

section \<open>Properties of the debouncer\<close>

lemma timer_fires_early:
  "events d p = Some pe \<Longrightarrow> now < timer pe \<Longrightarrow> timer_fires now p d = d"
  by (simp add: timer_fires_def)

lemma timer_fires_none: "events d p = None \<Longrightarrow> timer_fires now p d = d"
  by (simp add: timer_fires_def)

lemma Add_frame:
  "stopped (Add now p ty d) = stopped d" "delay (Add now p ty d) = delay d"
  "outputCh (Add now p ty d) = outputCh d"
  "q \<noteq> p \<Longrightarrow> events (Add now p ty d) q = events d q"
  by (simp_all add: Add_def Let_def split: option.splits)

lemma Add_pending:
  assumes "\<not> stopped d" "events d p = Some pe"
  shows "\<exists>pe'. events (Add now p ty d) p = Some pe' \<and>
     Path (event pe') = Path (event pe) \<and>
     EventType (event pe') =
       (if ty = EventDelete then EventDelete
        else if EventType (event pe) = EventCreate \<and> ty = EventModify then EventCreate
        else if EventType (event pe) \<noteq> EventDelete then ty else EventDelete) \<and>
     Timestamp (event pe') = now \<and> timer pe' = now + delay d"
  using assms by (simp add: Add_def Let_def)

lemma Add_fresh:
  assumes "\<not> stopped d" "events d p = None"
  shows "events (Add now p ty d) p =
     Some \<lparr>event = \<lparr>Path = p, EventType = ty, Timestamp = now\<rparr>, timer = now + delay d\<rparr>"
  using assms by (simp add: Add_def)

lemma burst_frame:
  "events d p = Some pe \<Longrightarrow> quiet (delay d) (timer pe) (map fst xs) \<Longrightarrow> \<not> stopped d \<Longrightarrow>
   stopped (burst xs p d) = stopped d \<and> delay (burst xs p d) = delay d \<and>
   outputCh (burst xs p d) = outputCh d \<and> (\<forall>q. q \<noteq> p \<longrightarrow> events (burst xs p d) q = events d q) \<and>
   (\<exists>pe'. events (burst xs p d) p = Some pe' \<and> Path (event pe') = Path (event pe) \<and>
       Timestamp (event pe') = (if xs = [] then Timestamp (event pe) else fst (last xs)) \<and>
       timer pe' = (if xs = [] then timer pe else fst (last xs) + delay d) \<and>
       (EventType (event pe) = EventDelete \<or> EventDelete \<in> snd ` set xs
          \<longrightarrow> EventType (event pe') = EventDelete) \<and>
       (EventType (event pe) = EventCreate \<and> snd ` set xs \<subseteq> {EventModify}
          \<longrightarrow> EventType (event pe') = EventCreate) \<and>
       (EventType (event pe) = EventModify \<and> snd ` set xs \<subseteq> {EventModify}
          \<longrightarrow> EventType (event pe') = EventModify))"
proof (induction xs arbitrary: d pe)
  case Nil
  then show ?case by simp
next
  case (Cons x xs)
  obtain now ty where x: "x = (now, ty)" by (cases x)
  let ?d1 = "Add now p ty d"
  from Cons.prems x have early: "now < timer pe" and q: "quiet (delay d) (now + delay d) (map fst xs)"
    by simp_all
  have tf: "timer_fires now p d = d" using timer_fires_early[OF Cons.prems(1) early] .
  from Add_pending[OF Cons.prems(3,1), of now ty] obtain pe1 where
    e1: "events ?d1 p = Some pe1" and p1: "Path (event pe1) = Path (event pe)" and
    t1: "EventType (event pe1) =
       (if ty = EventDelete then EventDelete
        else if EventType (event pe) = EventCreate \<and> ty = EventModify then EventCreate
        else if EventType (event pe) \<noteq> EventDelete then ty else EventDelete)" and
    ts1: "Timestamp (event pe1) = now" and tm1: "timer pe1 = now + delay d"
    by blast
  have s1: "\<not> stopped ?d1" using Cons.prems(3) by (simp add: Add_frame)
  have q1: "quiet (delay ?d1) (timer pe1) (map fst xs)" using q tm1 by (simp add: Add_frame)
  have b: "burst (x # xs) p d = burst xs p ?d1" using x tf by simp
  from Cons.IH[OF e1 q1 s1] obtain pe' where
    fr: "stopped (burst xs p ?d1) = stopped ?d1" "delay (burst xs p ?d1) = delay ?d1"
        "outputCh (burst xs p ?d1) = outputCh ?d1"
        "\<forall>q. q \<noteq> p \<longrightarrow> events (burst xs p ?d1) q = events ?d1 q" and
    r: "events (burst xs p ?d1) p = Some pe'" "Path (event pe') = Path (event pe1)"
       "Timestamp (event pe') = (if xs = [] then Timestamp (event pe1) else fst (last xs))"
       "timer pe' = (if xs = [] then timer pe1 else fst (last xs) + delay ?d1)"
       "EventType (event pe1) = EventDelete \<or> EventDelete \<in> snd ` set xs
          \<longrightarrow> EventType (event pe') = EventDelete"
       "EventType (event pe1) = EventCreate \<and> snd ` set xs \<subseteq> {EventModify}
          \<longrightarrow> EventType (event pe') = EventCreate"
       "EventType (event pe1) = EventModify \<and> snd ` set xs \<subseteq> {EventModify}
          \<longrightarrow> EventType (event pe') = EventModify"
    by blast
  have A: "stopped (burst (x # xs) p d) = stopped d \<and> delay (burst (x # xs) p d) = delay d \<and>
        outputCh (burst (x # xs) p d) = outputCh d \<and>
        (\<forall>q. q \<noteq> p \<longrightarrow> events (burst (x # xs) p d) q = events d q)"
    using fr by (simp add: b Add_frame)
  have B1: "Timestamp (event pe') = fst (last (x # xs))" using r(3) ts1 x by simp
  have B2: "timer pe' = fst (last (x # xs)) + delay d" using r(4) tm1 x by (simp add: Add_frame)
  have B3: "EventType (event pe) = EventDelete \<or> EventDelete \<in> snd ` set (x # xs)
          \<longrightarrow> EventType (event pe') = EventDelete"
    using r(5) t1 x by auto
  have B4: "EventType (event pe) = EventCreate \<and> snd ` set (x # xs) \<subseteq> {EventModify}
          \<longrightarrow> EventType (event pe') = EventCreate"
    using r(6) t1 x by auto
  have B5: "EventType (event pe) = EventModify \<and> snd ` set (x # xs) \<subseteq> {EventModify}
          \<longrightarrow> EventType (event pe') = EventModify"
    using r(7) t1 x by auto
  have "events (burst (x # xs) p d) p = Some pe'" using r(1) b by simp
  moreover have "Path (event pe') = Path (event pe)" using r(2) p1 by simp
  ultimately show ?case using A B1 B2 B3 B4 B5 by (intro conjI exI[of _ pe']) simp_all
qed


lemma emit_pending:
  "events d p = Some pe \<Longrightarrow> \<not> stopped d \<Longrightarrow>
   outputCh (emit p d) = outputCh d @ [event pe] \<and> events (emit p d) p = None"
  by (simp add: emit_def)

lemma timer_fires_due:
  "events d p = Some pe \<Longrightarrow> timer pe \<le> now \<Longrightarrow> timer_fires now p d = emit p d"
  by (simp add: timer_fires_def)

text \<open>
  Claim C3. A burst of \<open>Add\<close> calls for one path that starts with no pending event for
  the path, stays within one quiet window and contains a delete, emits nothing while it
  lasts; when the last timer expires, exactly one event is sent for the path, of type
  delete, with the timestamp of the last call, and the path is no longer pending.
\<close>

theorem delete_dominates_burst:
  assumes ns: "\<not> stopped d" and fresh: "events d p = None"
    and ne: "xs \<noteq> []"
    and qw: "quiet (delay d) (fst (hd xs) + delay d) (map fst (tl xs))"
    and del: "EventDelete \<in> snd ` set xs"
  shows "outputCh (burst xs p d) = outputCh d \<and>
         outputCh (timer_fires (fst (last xs) + delay d) p (burst xs p d)) =
           outputCh d @ [\<lparr>Path = p, EventType = EventDelete, Timestamp = fst (last xs)\<rparr>] \<and>
         events (timer_fires (fst (last xs) + delay d) p (burst xs p d)) p = None"
proof -
  obtain now ty rest where xs: "xs = (now, ty) # rest" using ne by (cases xs) auto
  let ?d1 = "Add now p ty d"
  let ?pe1 = "\<lparr>event = \<lparr>Path = p, EventType = ty, Timestamp = now\<rparr>, timer = now + delay d\<rparr>"
  have e1: "events ?d1 p = Some ?pe1" using Add_fresh[OF ns fresh] .
  have s1: "\<not> stopped ?d1" using ns by (simp add: Add_frame)
  have q1: "quiet (delay ?d1) (timer ?pe1) (map fst rest)" using qw xs by (simp add: Add_frame)
  have b: "burst xs p d = burst rest p ?d1" using xs timer_fires_none[OF fresh] by simp
  from burst_frame[OF e1 q1 s1] obtain pe' where
    fr: "stopped (burst rest p ?d1) = stopped ?d1" "outputCh (burst rest p ?d1) = outputCh ?d1" and
    r: "events (burst rest p ?d1) p = Some pe'" "Path (event pe') = Path (event ?pe1)"
       "Timestamp (event pe') = (if rest = [] then Timestamp (event ?pe1) else fst (last rest))"
       "timer pe' = (if rest = [] then timer ?pe1 else fst (last rest) + delay ?d1)"
       "EventType (event ?pe1) = EventDelete \<or> EventDelete \<in> snd ` set rest
          \<longrightarrow> EventType (event pe') = EventDelete"
    by blast
  have ty': "EventType (event pe') = EventDelete" using r(5) del xs by auto
  have ts': "Timestamp (event pe') = fst (last xs)" using r(3) xs by simp
  have tm': "timer pe' = fst (last xs) + delay d" using r(4) xs by (simp add: Add_frame)
  have ev: "event pe' = \<lparr>Path = p, EventType = EventDelete, Timestamp = fst (last xs)\<rparr>"
    using r(2) ty' ts' by simp
  have eb: "events (burst xs p d) p = Some pe'" using r(1) b by simp
  have sb: "\<not> stopped (burst xs p d)" using fr(1) s1 b by simp
  have ob: "outputCh (burst xs p d) = outputCh d" using fr(2) b by (simp add: Add_frame)
  have tf: "timer_fires (fst (last xs) + delay d) p (burst xs p d) = emit p (burst xs p d)"
    using timer_fires_due[OF eb] tm' by simp
  show ?thesis using emit_pending[OF eb sb] ob ev tf by simp
qed


theorem delete_dominates_burst_witness:
  "outputCh (burst [(0, EventCreate), (5, EventDelete), (7, EventModify)] ''test.md''
              (NewDebouncer 100)) = [] \<and>
   outputCh (timer_fires (7 + 100000000) ''test.md''
     (burst [(0, EventCreate), (5, EventDelete), (7, EventModify)] ''test.md''
        (NewDebouncer 100))) =
     [\<lparr>Path = ''test.md'', EventType = EventDelete, Timestamp = 7\<rparr>]"
  using delete_dominates_burst [of "NewDebouncer 100" "''test.md''"
      "[(0, EventCreate), (5, EventDelete), (7, EventModify)]"]
  by (simp add: NewDebouncer_def)

text \<open>
  Claim C4. On a running debouncer, a pending create followed by a modify stays a create,
  a pending modify followed by a modify stays a modify, and the calls create, modify,
  modify for a path with no pending event, within one quiet window, emit nothing while
  they last and exactly one event \<open>(p, create)\<close> when the last timer expires.
\<close>

theorem coalescing_in_arrival_order:
  assumes ns: "\<not> stopped d"
  shows "(events d p = Some pe \<and> EventType (event pe) = EventCreate \<longrightarrow>
            (\<exists>pe'. events (Add now p EventModify d) p = Some pe' \<and>
                   EventType (event pe') = EventCreate)) \<and>
         (events d p = Some pe \<and> EventType (event pe) = EventModify \<longrightarrow>
            (\<exists>pe'. events (Add now p EventModify d) p = Some pe' \<and>
                   EventType (event pe') = EventModify)) \<and>
         (events d p = None \<and> t2 < t1 + delay d \<and> t3 < t2 + delay d \<longrightarrow>
            outputCh (burst [(t1, EventCreate), (t2, EventModify), (t3, EventModify)] p d)
              = outputCh d \<and>
            outputCh (timer_fires (t3 + delay d) p
                (burst [(t1, EventCreate), (t2, EventModify), (t3, EventModify)] p d))
              = outputCh d @ [\<lparr>Path = p, EventType = EventCreate, Timestamp = t3\<rparr>] \<and>
            events (timer_fires (t3 + delay d) p
                (burst [(t1, EventCreate), (t2, EventModify), (t3, EventModify)] p d)) p = None)"
proof (intro conjI impI)
  assume a: "events d p = Some pe \<and> EventType (event pe) = EventCreate"
  from Add_pending[OF ns conjunct1[OF a], of now EventModify] a
  show "\<exists>pe'. events (Add now p EventModify d) p = Some pe' \<and> EventType (event pe') = EventCreate"
    by auto
next
  assume a: "events d p = Some pe \<and> EventType (event pe) = EventModify"
  from Add_pending[OF ns conjunct1[OF a], of now EventModify] a
  show "\<exists>pe'. events (Add now p EventModify d) p = Some pe' \<and> EventType (event pe') = EventModify"
    by auto
next
  assume a: "events d p = None \<and> t2 < t1 + delay d \<and> t3 < t2 + delay d"
  let ?xs = "[(t2, EventModify), (t3, EventModify)]"
  let ?d1 = "Add t1 p EventCreate d"
  let ?pe1 = "\<lparr>event = \<lparr>Path = p, EventType = EventCreate, Timestamp = t1\<rparr>, timer = t1 + delay d\<rparr>"
  have fresh: "events d p = None" using a by simp
  have e1: "events ?d1 p = Some ?pe1" using Add_fresh[OF ns fresh] .
  have s1: "\<not> stopped ?d1" using ns by (simp add: Add_frame)
  have q1: "quiet (delay ?d1) (timer ?pe1) (map fst ?xs)" using a by (simp add: Add_frame)
  have b: "burst ((t1, EventCreate) # ?xs) p d = burst ?xs p ?d1"
    using timer_fires_none[OF fresh] by simp
  from burst_frame[OF e1 q1 s1] obtain pe' where
    fr: "stopped (burst ?xs p ?d1) = stopped ?d1" "outputCh (burst ?xs p ?d1) = outputCh ?d1" and
    r: "events (burst ?xs p ?d1) p = Some pe'" "Path (event pe') = Path (event ?pe1)"
       "Timestamp (event pe') = (if ?xs = [] then Timestamp (event ?pe1) else fst (last ?xs))"
       "timer pe' = (if ?xs = [] then timer ?pe1 else fst (last ?xs) + delay ?d1)"
       "EventType (event ?pe1) = EventCreate \<and> snd ` set ?xs \<subseteq> {EventModify}
          \<longrightarrow> EventType (event pe') = EventCreate"
    by blast
  have ev: "event pe' = \<lparr>Path = p, EventType = EventCreate, Timestamp = t3\<rparr>"
    using r(2,3,5) by simp
  have tm: "timer pe' = t3 + delay d" using r(4) by (simp add: Add_frame)
  let ?b = "burst [(t1, EventCreate), (t2, EventModify), (t3, EventModify)] p d"
  have eb: "events ?b p = Some pe'" using r(1) b by simp
  have sb: "\<not> stopped ?b" using fr(1) s1 b by simp
  show "outputCh ?b = outputCh d" using fr(2) b by (simp add: Add_frame)
  have tf: "timer_fires (t3 + delay d) p ?b = emit p ?b"
    using timer_fires_due[OF eb] tm by simp
  show "outputCh (timer_fires (t3 + delay d) p ?b)
      = outputCh d @ [\<lparr>Path = p, EventType = EventCreate, Timestamp = t3\<rparr>]"
    using emit_pending[OF eb sb] \<open>outputCh ?b = outputCh d\<close> ev tf by simp
  show "events (timer_fires (t3 + delay d) p ?b) p = None"
    using emit_pending[OF eb sb] tf by simp
qed

theorem coalescing_in_arrival_order_witness:
  "(\<exists>pe'. events (Add 5 ''test.md'' EventModify (Add 0 ''test.md'' EventCreate (NewDebouncer 100)))
            ''test.md'' = Some pe' \<and> EventType (event pe') = EventCreate) \<and>
   (\<exists>pe'. events (Add 5 ''test.md'' EventModify (Add 0 ''test.md'' EventModify (NewDebouncer 100)))
            ''test.md'' = Some pe' \<and> EventType (event pe') = EventModify) \<and>
   outputCh (timer_fires (7 + 100000000) ''test.md''
     (burst [(0, EventCreate), (5, EventModify), (7, EventModify)] ''test.md''
        (NewDebouncer 100))) =
     [\<lparr>Path = ''test.md'', EventType = EventCreate, Timestamp = 7\<rparr>]"
  using coalescing_in_arrival_order [of "Add 0 ''test.md'' EventCreate (NewDebouncer 100)"
      "''test.md''" "\<lparr>event = \<lparr>Path = ''test.md'', EventType = EventCreate, Timestamp = 0\<rparr>,
         timer = 100000000\<rparr>" 5]
    coalescing_in_arrival_order [of "Add 0 ''test.md'' EventModify (NewDebouncer 100)"
      "''test.md''" "\<lparr>event = \<lparr>Path = ''test.md'', EventType = EventModify, Timestamp = 0\<rparr>,
         timer = 100000000\<rparr>" 5]
    coalescing_in_arrival_order [of "NewDebouncer 100" "''test.md''" _ _ 5 0 7]
  by (simp add: NewDebouncer_def Add_def)

section \<open>Properties of the state cache and of the incremental path\<close>

text \<open>
  Claim C7. When the snapshot file of the vault decodes to a state whose vault path is
  not the current one, \<open>NewStateTracker\<close> returns a tracker whose file map is empty and
  whose vault path is the current one.
\<close>

theorem root_mismatch_resets_cache:
  assumes dir: "GetStateDir env = Inr stateDir"
    and snap: "os_ReadFile dk (Join env stateDir (''state-'' @ take 12 (HashString env vaultPath) @ ''.json''))
                 = Inr data"
    and dec: "Unmarshal env data = Inr decoded"
    and mismatch: "VaultPath decoded \<noteq> vaultPath"
  shows "\<exists>st. NewStateTracker env dk vaultPath = Inr st \<and>
              Files (state st) = Map.empty \<and> VaultPath (state st) = vaultPath"
  using assms by (simp add: NewStateTracker_def load_def emptyState_def Let_def)

theorem root_mismatch_resets_cache_witness:
  "\<exists>st. NewStateTracker exEnv exDisk ''/elsewhere'' = Inr st \<and>
        Files (state st) = Map.empty \<and> VaultPath (state st) = ''/elsewhere''"
  using root_mismatch_resets_cache [of exEnv "''/cfg''" exDisk "''/elsewhere''" "''old-snapshot''" exState]
  by (simp add: exEnv_def exDisk_def exState_def os_ReadFile_def)

text \<open>
  Claim C2, as stated, fails: \<open>Save\<close> writes to the snapshot file itself. With the
  snapshot \<open>old-snapshot\<close> on disk, a save of \<open>new-snapshot\<close> that stops after three
  bytes leaves \<open>new\<close> in the file.
\<close>

theorem Save_interrupted_counterexample:
  "exDisk (filePath exTracker) = Inr ''old-snapshot'' \<and>
   snd (snd (Save (exEnv\<lparr>writeOutcome := Interrupted 3\<rparr>) exTracker exDisk)) (filePath exTracker)
     = Inr ''new'' \<and>
   snd (snd (Save (exEnv\<lparr>writeOutcome := Interrupted 3\<rparr>) exTracker exDisk)) (filePath exTracker)
     \<noteq> exDisk (filePath exTracker)"
  by (simp add: Save_def exEnv_def exTracker_def exDisk_def os_WriteFile_def)

text \<open>
  Claim C2, amended. With the dirty flag clear, \<open>Save\<close> writes nothing and returns no
  error. With the flag set, it writes the encoded state to the snapshot file in place:
  a completed write leaves the new snapshot there and clears the flag; a write that
  stops after \<open>k\<close> bytes leaves the first \<open>k\<close> bytes of the new snapshot there, returns
  the error and keeps the flag; a failed open changes nothing on disk.
\<close>

theorem Save_writes_in_place:
  "(\<not> dirty st \<longrightarrow> Save env st dk = (None, st, dk)) \<and>
   (dirty st \<and> Marshal env (state st) = Inr data \<longrightarrow>
      (writeOutcome env = Completed \<longrightarrow>
         Save env st dk = (None, st\<lparr>dirty := False\<rparr>, dk(filePath st := Inr data))) \<and>
      (writeOutcome env = Interrupted k \<longrightarrow>
         Save env st dk = (Some ErrIO, st, dk(filePath st := Inr (take k data)))) \<and>
      (writeOutcome env = OpenFails \<longrightarrow> Save env st dk = (Some ErrIO, st, dk)))"
  by (simp add: Save_def os_WriteFile_def)

theorem Save_writes_in_place_witness:
  "Save exEnv (exTracker\<lparr>dirty := False\<rparr>) exDisk = (None, exTracker\<lparr>dirty := False\<rparr>, exDisk) \<and>
   Save exEnv exTracker exDisk =
     (None, exTracker\<lparr>dirty := False\<rparr>, exDisk(filePath exTracker := Inr ''new-snapshot'')) \<and>
   Save (exEnv\<lparr>writeOutcome := Interrupted 3\<rparr>) exTracker exDisk =
     (Some ErrIO, exTracker, exDisk(filePath exTracker := Inr ''new'')) \<and>
   Save (exEnv\<lparr>writeOutcome := OpenFails\<rparr>) exTracker exDisk = (Some ErrIO, exTracker, exDisk)"
  using Save_writes_in_place [where st = "exTracker\<lparr>dirty := False\<rparr>" and env = exEnv and dk = exDisk]
    Save_writes_in_place [where st = exTracker and env = exEnv and data = "''new-snapshot''"
      and dk = exDisk]
    Save_writes_in_place [where st = exTracker and env = "exEnv\<lparr>writeOutcome := Interrupted 3\<rparr>"
      and data = "''new-snapshot''" and dk = exDisk and k = 3]
    Save_writes_in_place [where st = exTracker and env = "exEnv\<lparr>writeOutcome := OpenFails\<rparr>"
      and data = "''new-snapshot''" and dk = exDisk]
  by (simp add: exEnv_def exTracker_def)


text \<open>
  Claim C6. When the hash computed for a path equals the hash the cache records for it,
  \<open>upsertFile\<close> returns the engine as it was: no call on the remote store, the tables
  and the cache unchanged.
\<close>

theorem fingerprint_gate:
  assumes "HashFile env relPath = Inr h" and "Files (state (tracker e)) relPath = Some fs"
    and "Hash fs = h"
  shows "snd (upsertFile env relPath e) = e"
  using assms by (simp add: upsertFile_def NeedsSync_def split: stat_result.splits)

theorem fingerprint_gate_witness:
  "snd (upsertFile exEnv ''a.md'' exEngine) = exEngine \<and> calls (db exEngine) = []"
  using fingerprint_gate [of exEnv "''a.md''" "''h-a''" exEngine
      "\<lparr>Hash = ''h-a'', LastSynced = 5, LastModified = 4, SizeBytes = 10\<rparr>"]
  by (simp add: exEnv_def exEngine_def exTracker_def exState_def)

text \<open>
  Claim C8, as stated, fails: only the \<open>os.Stat\<close> at the start of \<open>upsertFile\<close>
  swallows a missing file. A note that is there for the stat and gone when
  \<open>HashFile\<close> opens it makes \<open>SyncFile\<close> return the hash error.
\<close>

theorem vanished_after_stat_counterexample:
  "Stat exEnvVanishing ''b.md'' = StatInfo False 20 6 \<and>
   HashFile exEnvVanishing ''b.md'' = Inl ErrNotExist \<and>
   SyncFile exEnvVanishing ''b.md'' EventCreate exEngine = (Some ErrHash, exEngine) \<and>
   fst (SyncFile exEnvVanishing ''b.md'' EventModify exEngine) \<noteq> None"
  by (simp add: SyncFile_def upsertFile_def exEnvVanishing_def exEnv_def exEngine_def
      shouldIgnore_def)

text \<open>
  Claim C8, amended. For a create or modify event whose target does not exist when
  \<open>upsertFile\<close> stats it, \<open>SyncFile\<close> returns no error and the engine as it was: no
  call on the remote store, no change of the cache.
\<close>

theorem vanished_file_is_noop:
  assumes "Stat env relPath = StatNotExist" and "eventType = EventCreate \<or> eventType = EventModify"
  shows "SyncFile env relPath eventType e = (None, e)"
  using assms by (auto simp add: SyncFile_def upsertFile_def)

theorem vanished_file_is_noop_witness:
  "SyncFile exEnv ''gone.md'' EventCreate exEngine = (None, exEngine) \<and>
   SyncFile exEnv ''gone.md'' EventModify exEngine = (None, exEngine)"
  using vanished_file_is_noop [of exEnv "''gone.md''" EventCreate exEngine]
    vanished_file_is_noop [of exEnv "''gone.md''" EventModify exEngine]
  by (simp add: exEnv_def)

text \<open>
  Claim C9. For a file that is not a note and is larger than the maximum binary size,
  \<open>upsertFile\<close> returns no error and leaves the remote store and its call log as they
  were; afterwards the cache holds the file's hash (with the timestamps and the size of
  this run when the file needed a sync), and a second \<open>upsertFile\<close> does nothing.
\<close>

theorem oversized_attachment_recorded:
  assumes st: "Stat env relPath = StatInfo False fsize modTime"
    and ig: "\<not> shouldIgnore env (config e) relPath"
    and hf: "HashFile env relPath = Inr h"
    and att: "\<not> isMarkdown relPath"
    and big: "fsize > maxBinarySize e"
  shows "fst (upsertFile env relPath e) = None \<and>
         db (snd (upsertFile env relPath e)) = db e \<and>
         (\<exists>fs. Files (state (tracker (snd (upsertFile env relPath e)))) relPath = Some fs \<and>
               Hash fs = h \<and>
               (NeedsSync (tracker e) relPath h \<longrightarrow>
                  fs = \<lparr>Hash = h, LastSynced = Now env, LastModified = modTime,
                        SizeBytes = fsize\<rparr>)) \<and>
         upsertFile env relPath (snd (upsertFile env relPath e)) =
           (None, snd (upsertFile env relPath e))"
proof (cases "NeedsSync (tracker e) relPath h")
  case True
  let ?e' = "e\<lparr>tracker := SetFileState relPath
       \<lparr>Hash = h, LastSynced = Now env, LastModified = modTime, SizeBytes = fsize\<rparr> (tracker e)\<rparr>"
  have u: "upsertFile env relPath e = (None, ?e')"
    using assms True by (simp add: upsertFile_def syncAttachment_def)
  have n: "\<not> NeedsSync (tracker ?e') relPath h"
    by (simp add: NeedsSync_def SetFileState_def)
  have u2: "upsertFile env relPath ?e' = (None, ?e')"
    using st ig hf n by (simp add: upsertFile_def)
  show ?thesis using u u2 by (simp add: SetFileState_def)
next
  case False
  have u: "upsertFile env relPath e = (None, e)"
    using st ig hf False by (simp add: upsertFile_def)
  from False obtain fs where "Files (state (tracker e)) relPath = Some fs" "Hash fs = h"
    by (auto simp add: NeedsSync_def split: option.splits)
  then show ?thesis using u False by simp
qed

theorem oversized_attachment_recorded_witness:
  "fst (upsertFile exEnv ''big.png'' exEngine) = None \<and>
   db (snd (upsertFile exEnv ''big.png'' exEngine)) = db exEngine \<and>
   Files (state (tracker (snd (upsertFile exEnv ''big.png'' exEngine)))) ''big.png'' =
     Some \<lparr>Hash = ''h-big'', LastSynced = 1000, LastModified = 7, SizeBytes = 5000\<rparr> \<and>
   upsertFile exEnv ''big.png'' (snd (upsertFile exEnv ''big.png'' exEngine)) =
     (None, snd (upsertFile exEnv ''big.png'' exEngine))"
  using oversized_attachment_recorded [of exEnv "''big.png''" 5000 7 exEngine "''h-big''"]
  by (auto simp add: exEnv_def exEngine_def exTracker_def exState_def shouldIgnore_def
      isMarkdown_def HasSuffix_def ToLower_def toLowerChar_def NeedsSync_def)

section \<open>One upsert\<close>

lemma pathView_eqD:
  assumes "pathView p e' = pathView p e"
  shows "config e' = config e" "maxBinarySize e' = maxBinarySize e"
    "Files (state (tracker e')) p = Files (state (tracker e)) p"
    "NeedsSync (tracker e') p h = NeedsSync (tracker e) p h"
  using assms by (simp_all add: pathView_def NeedsSync_def)

lemma upsertFile_gated:
  assumes "Stat env p = StatInfo False fsize modTime" "\<not> shouldIgnore env (config e) p"
    "HashFile env p = Inr h" "\<not> NeedsSync (tracker e) p h"
  shows "upsertFile env p e = (None, e)"
  using assms by (simp add: upsertFile_def)

lemma upsertFile_needed:
  assumes "Stat env p = StatInfo False fsize modTime" "\<not> shouldIgnore env (config e) p"
    "HashFile env p = Inr h" "NeedsSync (tracker e) p h"
  shows "upsertFile env p e =
     (case (if isMarkdown p then syncNote env p h fsize e else syncAttachment env p h fsize e) of
        (Some err, e1) \<Rightarrow> (Some err, e1)
      | (None, e1) \<Rightarrow>
          (None, e1\<lparr>tracker := SetFileState p
             \<lparr>Hash = h, LastSynced = Now env, LastModified = modTime, SizeBytes = fsize\<rparr>
             (tracker e1)\<rparr>))"
  using assms by (simp add: upsertFile_def)

text \<open>The shapes of one upsert; each holds for every engine with the same view of the path.\<close>

lemma upsertFile_cases:
  obtains
    (still) r where "\<And>e'. pathView p e' = pathView p e \<Longrightarrow> upsertFile env p e' = (r, e')"
  | (failed) c where
      "\<And>e'. pathView p e' = pathView p e \<Longrightarrow>
         upsertFile env p e' = (Some ErrDB, e'\<lparr>db := (db e')\<lparr>calls := calls (db e') @ [c]\<rparr>\<rparr>)"
      "dbFails env c"
  | (recorded) fs where
      "\<And>e'. pathView p e' = pathView p e \<Longrightarrow>
         upsertFile env p e' = (None, e'\<lparr>tracker := SetFileState p fs (tracker e')\<rparr>)"
      "\<And>e'. config e' = config e \<Longrightarrow> Files (state (tracker e')) p = Some fs \<Longrightarrow>
         upsertFile env p e' = (None, e')"
  | (noteUp) fs h where
      "\<And>e'. pathView p e' = pathView p e \<Longrightarrow>
         upsertFile env p e' =
           (None, e'\<lparr>db := (db e')\<lparr>calls := calls (db e') @ [UpsertNoteCall p h],
                                  vault_notes := AList.update p h (vault_notes (db e'))\<rparr>,
                     tracker := SetFileState p fs (tracker e')\<rparr>)"
      "\<And>e'. config e' = config e \<Longrightarrow> Files (state (tracker e')) p = Some fs \<Longrightarrow>
         upsertFile env p e' = (None, e')"
      "isMarkdown p" "HashFile env p = Inr h"
  | (attachUp) fs h where
      "\<And>e'. pathView p e' = pathView p e \<Longrightarrow>
         upsertFile env p e' =
           (None, e'\<lparr>db := (db e')\<lparr>calls := calls (db e') @ [UpsertAttachmentCall p h],
                                  vault_attachments := AList.update p h (vault_attachments (db e'))\<rparr>,
                     tracker := SetFileState p fs (tracker e')\<rparr>)"
      "\<And>e'. config e' = config e \<Longrightarrow> Files (state (tracker e')) p = Some fs \<Longrightarrow>
         upsertFile env p e' = (None, e')"
      "\<not> isMarkdown p" "HashFile env p = Inr h"
proof (cases "Stat env p")
  case StatNotExist
  then have "upsertFile env p e' = (None, e')" for e' by (simp add: upsertFile_def)
  then show ?thesis using still by blast
next
  case StatError
  then have "upsertFile env p e' = (Some ErrStat, e')" for e' by (simp add: upsertFile_def)
  then show ?thesis using still by blast
next
  case (StatInfo isDir fsize modTime)
  show ?thesis
  proof (cases "isDir \<or> shouldIgnore env (config e) p")
    case True
    have "upsertFile env p e' = (None, e')" if "pathView p e' = pathView p e" for e'
      using True StatInfo pathView_eqD(1)[OF that] by (auto simp add: upsertFile_def)
    then show ?thesis using still by blast
  next
    case False
    then have nd: "Stat env p = StatInfo False fsize modTime" and ni: "\<not> shouldIgnore env (config e) p"
      using StatInfo by simp_all
    show ?thesis
    proof (cases "HashFile env p")
      case (Inl err)
      have "upsertFile env p e' = (Some ErrHash, e')" if "pathView p e' = pathView p e" for e'
        using nd ni Inl pathView_eqD(1)[OF that] by (simp add: upsertFile_def)
      then show ?thesis using still by blast
    next
      case (Inr h)
      let ?fs = "\<lparr>Hash = h, LastSynced = Now env, LastModified = modTime, SizeBytes = fsize\<rparr>"
      have gate: "upsertFile env p e' = (None, e')"
        if "config e' = config e" "Files (state (tracker e')) p = Some ?fs" for e'
      proof -
        have "\<not> NeedsSync (tracker e') p h" using that(2) by (simp add: NeedsSync_def)
        then show ?thesis using upsertFile_gated[OF nd _ Inr, of e'] ni that(1) by simp
      qed
      show ?thesis
      proof (cases "NeedsSync (tracker e) p h")
        case False
        have "upsertFile env p e' = (None, e')" if "pathView p e' = pathView p e" for e'
          using upsertFile_gated[OF nd _ Inr, of e'] ni False pathView_eqD(1,4)[OF that] by simp
        then show ?thesis using still by blast
      next
        case True
        have need: "upsertFile env p e' =
           (case (if isMarkdown p then syncNote env p h fsize e' else syncAttachment env p h fsize e') of
              (Some err, e1) \<Rightarrow> (Some err, e1)
            | (None, e1) \<Rightarrow> (None, e1\<lparr>tracker := SetFileState p ?fs (tracker e1)\<rparr>))"
          if "pathView p e' = pathView p e" for e'
          using upsertFile_needed[OF nd _ Inr, of e'] ni True pathView_eqD(1,4)[OF that] by simp
        show ?thesis
        proof (cases "isMarkdown p")
          case md: True
          show ?thesis
          proof (cases "ParseFile env p")
            case (Some err)
            have "upsertFile env p e' = (Some ErrParse, e')" if "pathView p e' = pathView p e" for e'
              using need[OF that] md Some by (simp add: syncNote_def)
            then show ?thesis using still by blast
          next
            case None
            show ?thesis
            proof (cases "dbFails env (UpsertNoteCall p h)")
              case True
              have "upsertFile env p e' =
                  (Some ErrDB, e'\<lparr>db := (db e')\<lparr>calls := calls (db e') @ [UpsertNoteCall p h]\<rparr>\<rparr>)"
                if "pathView p e' = pathView p e" for e'
                using need[OF that] md None True by (simp add: syncNote_def UpsertNote_def)
              then show ?thesis using failed True by blast
            next
              case False
              have "upsertFile env p e' =
                 (None, e'\<lparr>db := (db e')\<lparr>calls := calls (db e') @ [UpsertNoteCall p h],
                                  vault_notes := AList.update p h (vault_notes (db e'))\<rparr>,
                     tracker := SetFileState p ?fs (tracker e')\<rparr>)"
                if "pathView p e' = pathView p e" for e'
                using need[OF that] md None False by (simp add: syncNote_def UpsertNote_def)
              then show ?thesis using noteUp[of ?fs h] gate md Inr by blast
            qed
          qed
        next
          case nmd: False
          show ?thesis
          proof (cases "fsize > maxBinarySize e")
            case True
            have "upsertFile env p e' = (None, e'\<lparr>tracker := SetFileState p ?fs (tracker e')\<rparr>)"
              if "pathView p e' = pathView p e" for e'
              using need[OF that] nmd True pathView_eqD(2)[OF that] by (simp add: syncAttachment_def)
            then show ?thesis using recorded[of ?fs] gate by blast
          next
            case small: False
            show ?thesis
            proof (cases "ReadFile env p")
              case (Some err)
              have "upsertFile env p e' = (Some ErrRead, e')" if "pathView p e' = pathView p e" for e'
                using need[OF that] nmd small Some pathView_eqD(2)[OF that]
                by (simp add: syncAttachment_def)
              then show ?thesis using still by blast
            next
              case None
              show ?thesis
              proof (cases "dbFails env (UpsertAttachmentCall p h)")
                case True
                have "upsertFile env p e' =
                  (Some ErrDB, e'\<lparr>db := (db e')\<lparr>calls := calls (db e') @ [UpsertAttachmentCall p h]\<rparr>\<rparr>)"
                  if "pathView p e' = pathView p e" for e'
                  using need[OF that] nmd small None True pathView_eqD(2)[OF that]
                  by (simp add: syncAttachment_def UpsertAttachment_def)
                then show ?thesis using failed True by blast
              next
                case False
                have "upsertFile env p e' =
                   (None, e'\<lparr>db := (db e')\<lparr>calls := calls (db e') @ [UpsertAttachmentCall p h],
                                  vault_attachments := AList.update p h (vault_attachments (db e'))\<rparr>,
                     tracker := SetFileState p ?fs (tracker e')\<rparr>)"
                  if "pathView p e' = pathView p e" for e'
                  using need[OF that] nmd small None False pathView_eqD(2)[OF that]
                  by (simp add: syncAttachment_def UpsertAttachment_def)
                then show ?thesis using attachUp[of ?fs h] gate nmd Inr by blast
              qed
            qed
          qed
        qed
      qed
    qed
  qed
qed


lemma pathView_retryQueue [simp]: "pathView p (e\<lparr>retryQueue := rq\<rparr>) = pathView p e"
  by (simp add: pathView_def)

lemma pathView_calls [simp]:
  "pathView p (e\<lparr>db := (db e)\<lparr>calls := cs\<rparr>\<rparr>) = pathView p e"
  by (simp add: pathView_def)

lemma upsertFile_fixed:
  "config (snd (upsertFile env p e)) = config e"
  "maxBinarySize (snd (upsertFile env p e)) = maxBinarySize e"
  "retryQueue (snd (upsertFile env p e)) = retryQueue e"
  by (cases rule: upsertFile_cases[of p e env]; simp)+

lemma upsertFile_calls:
  "calls (db (snd (upsertFile env p e))) = calls (db e) @ newCalls env p e"
  unfolding newCalls_def by (cases rule: upsertFile_cases[of p e env]; simp)

lemma upsertFile_other:
  "q \<noteq> p \<Longrightarrow> pathView q (snd (upsertFile env p e)) = pathView q e"
  by (cases rule: upsertFile_cases[of p e env];
      simp add: pathView_def SetFileState_def update_conv')

lemma upsertFile_local:
  assumes "pathView p e2 = pathView p e"
  shows "fst (upsertFile env p e2) = fst (upsertFile env p e) \<and>
         pathView p (snd (upsertFile env p e2)) = pathView p (snd (upsertFile env p e)) \<and>
         newCalls env p e2 = newCalls env p e"
  using assms unfolding newCalls_def
  by (cases rule: upsertFile_cases[of p e env];
      simp add: pathView_def SetFileState_def update_conv')

lemma upsertFile_twice:
  "fst (upsertFile env p (snd (upsertFile env p e))) = fst (upsertFile env p e) \<and>
   pathView p (snd (upsertFile env p (snd (upsertFile env p e)))) =
     pathView p (snd (upsertFile env p e))"
proof (cases rule: upsertFile_cases[of p e env])
  case (still r)
  then show ?thesis by simp
next
  case (failed c)
  from failed(1)[of e] failed(1)[of "e\<lparr>db := (db e)\<lparr>calls := calls (db e) @ [c]\<rparr>\<rparr>"]
  show ?thesis by simp
next
  case (recorded fs)
  from recorded(1)[of e] recorded(2)[of "e\<lparr>tracker := SetFileState p fs (tracker e)\<rparr>"]
  show ?thesis by (simp add: SetFileState_def)
next
  case (noteUp fs h)
  from noteUp(1)[of e] noteUp(2)[of "snd (upsertFile env p e)"]
  show ?thesis by (simp add: SetFileState_def)
next
  case (attachUp fs h)
  from attachUp(1)[of e] attachUp(2)[of "snd (upsertFile env p e)"]
  show ?thesis by (simp add: SetFileState_def)
qed

text \<open>When no store call fails, a second upsert of the same path changes nothing.\<close>

lemma upsertFile_settles:
  assumes nofail: "\<forall>c. \<not> dbFails env c" and v: "pathView p e2 = pathView p (snd (upsertFile env p e))"
  shows "snd (upsertFile env p e2) = e2"
proof (cases rule: upsertFile_cases[of p e env])
  case (still r)
  from still[of e] have "snd (upsertFile env p e) = e" by simp
  with v still[of e2] show ?thesis by simp
next
  case (failed c)
  with nofail show ?thesis by simp
next
  case (recorded fs)
  from recorded(1)[of e] v have "config e2 = config e" "Files (state (tracker e2)) p = Some fs"
    by (simp_all add: pathView_def SetFileState_def)
  with recorded(2)[of e2] show ?thesis by simp
next
  case (noteUp fs h)
  from noteUp(1)[of e] v have "config e2 = config e" "Files (state (tracker e2)) p = Some fs"
    by (simp_all add: pathView_def SetFileState_def)
  with noteUp(2)[of e2] show ?thesis by simp
next
  case (attachUp fs h)
  from attachUp(1)[of e] v have "config e2 = config e" "Files (state (tracker e2)) p = Some fs"
    by (simp_all add: pathView_def SetFileState_def)
  with attachUp(2)[of e2] show ?thesis by simp
qed


lemma syncLoop_other:
  "q \<notin> set ps \<Longrightarrow>
   pathView q (syncLoop env ps e) = pathView q e \<and> retryQueue (syncLoop env ps e) q = retryQueue e q"
proof (induction ps arbitrary: e)
  case Nil
  then show ?case by simp
next
  case (Cons p ps)
  then have qp: "q \<noteq> p" and qps: "q \<notin> set ps" by auto
  obtain r e1 where u: "upsertFile env p e = (r, e1)" by (cases "upsertFile env p e")
  have v1: "pathView q e1 = pathView q e" using upsertFile_other[OF qp, of env e] u by simp
  have r1: "retryQueue e1 = retryQueue e" using upsertFile_fixed(3)[of env p e] u by simp
  show ?case
  proof (cases r)
    case None
    then show ?thesis using Cons.IH[OF qps, of e1] u v1 r1 by simp
  next
    case (Some err)
    then show ?thesis
      using Cons.IH[OF qps, of "e1\<lparr>retryQueue := (retryQueue e1)(p \<mapsto> 0)\<rparr>"] u v1 r1 qp by simp
  qed
qed

lemma syncLoop_member:
  "q \<in> set ps \<Longrightarrow>
   pathView q (syncLoop env ps e) = pathView q (snd (upsertFile env q e)) \<and>
   retryQueue (syncLoop env ps e) q =
     (if fst (upsertFile env q e) = None then retryQueue e q else Some 0)"
proof (induction ps arbitrary: e)
  case Nil
  then show ?case by simp
next
  case (Cons p ps)
  obtain r e1 where u: "upsertFile env p e = (r, e1)" by (cases "upsertFile env p e")
  define e1' where "e1' = (case r of None \<Rightarrow> e1 | Some err \<Rightarrow> e1\<lparr>retryQueue := (retryQueue e1)(p \<mapsto> 0)\<rparr>)"
  have step: "syncLoop env (p # ps) e = syncLoop env ps e1'"
    using u by (simp add: e1'_def split: option.splits)
  have v1': "pathView x e1' = pathView x e1" for x by (simp add: e1'_def split: option.splits)
  have rq1: "retryQueue e1 = retryQueue e" using upsertFile_fixed(3)[of env p e] u by simp
  show ?case
  proof (cases "q = p")
    case True
    have uq: "upsertFile env q e = (r, e1)" using u True by simp
    have rq1': "retryQueue e1' q = (if r = None then retryQueue e q else Some 0)"
      using True rq1 by (simp add: e1'_def split: option.splits)
    have tw: "fst (upsertFile env q e1) = r" "pathView q (snd (upsertFile env q e1)) = pathView q e1"
      using upsertFile_twice[of env q e] uq by simp_all
    have loc: "fst (upsertFile env q e1') = r"
      "pathView q (snd (upsertFile env q e1')) = pathView q e1"
      using upsertFile_local[OF v1'[of q], of env] tw by simp_all
    have goal: "pathView q (syncLoop env ps e1') = pathView q e1 \<and>
        retryQueue (syncLoop env ps e1') q = (if r = None then retryQueue e q else Some 0)"
    proof (cases "q \<in> set ps")
      case True
      from Cons.IH[OF True, of e1'] loc rq1' show ?thesis by simp
    next
      case False
      from syncLoop_other[OF False, of env e1'] v1'[of q] rq1' show ?thesis by simp
    qed
    show ?thesis unfolding step using goal uq by simp
  next
    case False
    with Cons.prems have qps: "q \<in> set ps" by simp
    have vq: "pathView q e1' = pathView q e"
      using v1'[of q] upsertFile_other[OF False, of env e] u by simp
    have rq1': "retryQueue e1' q = retryQueue e q"
      using False rq1 by (simp add: e1'_def split: option.splits)
    from Cons.IH[OF qps, of e1'] upsertFile_local[OF vq, of env] rq1' show ?thesis
      unfolding step by simp
  qed
qed


lemma upsertFile_still_local:
  assumes v: "pathView p e2 = pathView p e" and st: "snd (upsertFile env p e) = e"
  shows "snd (upsertFile env p e2) = e2"
proof (cases rule: upsertFile_cases[of p e env])
  case (still r)
  with v show ?thesis by simp
next
  case (failed c)
  from failed(1)[of e] st have "calls (db (e\<lparr>db := (db e)\<lparr>calls := calls (db e) @ [c]\<rparr>\<rparr>)) = calls (db e)"
    by simp
  then show ?thesis by simp
next
  case (recorded fs)
  from recorded(1)[of e] st
  have "Files (state (tracker (e\<lparr>tracker := SetFileState p fs (tracker e)\<rparr>))) p
      = Files (state (tracker e)) p" by simp
  then have "Files (state (tracker e)) p = Some fs" by (simp add: SetFileState_def)
  with v have "config e2 = config e" "Files (state (tracker e2)) p = Some fs"
    by (simp_all add: pathView_def)
  with recorded(2)[of e2] show ?thesis by simp
next
  case (noteUp fs h)
  from noteUp(1)[of e] st have "calls (db (snd (upsertFile env p e))) = calls (db e)" by simp
  with noteUp(1)[of e] show ?thesis by simp
next
  case (attachUp fs h)
  from attachUp(1)[of e] st have "calls (db (snd (upsertFile env p e))) = calls (db e)" by simp
  with attachUp(1)[of e] show ?thesis by simp
qed

lemma syncLoop_still:
  "\<forall>p \<in> set ps. snd (upsertFile env p e) = e \<Longrightarrow>
   db (syncLoop env ps e) = db e \<and> tracker (syncLoop env ps e) = tracker e"
proof (induction ps arbitrary: e)
  case Nil
  then show ?case by simp
next
  case (Cons p ps)
  obtain r where u: "upsertFile env p e = (r, e)"
    using Cons.prems by (cases "upsertFile env p e") auto
  define e1' where "e1' = (case r of None \<Rightarrow> e | Some err \<Rightarrow> e\<lparr>retryQueue := (retryQueue e)(p \<mapsto> 0)\<rparr>)"
  have step: "syncLoop env (p # ps) e = syncLoop env ps e1'"
    using u by (simp add: e1'_def split: option.splits)
  have v: "pathView x e1' = pathView x e" for x by (simp add: e1'_def split: option.splits)
  have dt: "db e1' = db e" "tracker e1' = tracker e" by (simp_all add: e1'_def split: option.splits)
  have "\<forall>q \<in> set ps. snd (upsertFile env q e1') = e1'"
    using Cons.prems upsertFile_still_local[OF v] by simp
  from Cons.IH[OF this] dt show ?case unfolding step by simp
qed

lemma syncLoop_fixed:
  "config (syncLoop env ps e) = config e" "maxBinarySize (syncLoop env ps e) = maxBinarySize e"
proof (induction ps arbitrary: e)
  case Nil
  { case 1 show ?case by simp }
  { case 2 show ?case by simp }
next
  case (Cons p ps)
  { case 1 show ?case using Cons(1) upsertFile_fixed(1)[of env p e]
      by (cases "upsertFile env p e") (auto split: option.splits) }
  { case 2 show ?case using Cons(2) upsertFile_fixed(2)[of env p e]
      by (cases "upsertFile env p e") (auto split: option.splits) }
qed

section \<open>Tables and the scan\<close>

subsection \<open>Tables\<close>

lemma map_of_rev_distinct: "distinct (map fst xs) \<Longrightarrow> map_of (rev xs) = map_of xs"
proof (induction xs)
  case Nil
  then show ?case by simp
next
  case (Cons x xs)
  obtain k v where x: "x = (k, v)" by (cases x)
  from Cons.prems x have "map_of xs k = None" by (simp add: map_of_eq_None_iff)
  then have "[k \<mapsto> v] ++ map_of xs = (map_of xs)(k \<mapsto> v)"
    by (auto simp add: map_add_def fun_eq_iff split: option.splits)
  with Cons x show ?case by simp
qed

lemma putAll_keys: "fst ` set (putAll m rows) = fst ` set m \<union> fst ` set rows"
  unfolding putAll_def
proof (induction rows arbitrary: m)
  case Nil
  then show ?case by simp
next
  case (Cons x rows)
  obtain k v where x: "x = (k, v)" by (cases x)
  have "fst ` set (fold (\<lambda>(k, v). AList.update k v) rows (AList.update k v m)) =
      ({k} \<union> fst ` set m) \<union> fst ` set rows"
    unfolding Cons.IH dom_update ..
  then show ?case using x by auto
qed

lemma putAll_distinct: "distinct (map fst m) \<Longrightarrow> distinct (map fst (putAll m rows))"
  unfolding putAll_def by (induction rows arbitrary: m) (auto simp add: distinct_update)

lemma putAll_lookup: "map_of (putAll m rows) = map_of m ++ map_of (rev rows)"
  unfolding putAll_def
proof (induction rows arbitrary: m)
  case Nil
  then show ?case by simp
next
  case (Cons x rows)
  obtain k v where x: "x = (k, v)" by (cases x)
  have "map_of (fold (\<lambda>(k, v). AList.update k v) rows (AList.update k v m)) =
      (map_of m)(k \<mapsto> v) ++ map_of (rev rows)"
    unfolding Cons.IH update_conv' ..
  also have "\<dots> = map_of m ++ map_of (rev ((k, v) # rows))"
    by (auto simp add: map_add_def fun_eq_iff split: option.splits)
  finally show ?case using x by simp
qed

lemma inventory_keys:
  "fst ` set (inventory e) = fst ` set (vault_notes (db e)) \<union> fst ` set (vault_attachments (db e))"
  by (simp add: inventory_def mergeHashes_def putAll_keys)

lemma inventory_lookup:
  assumes "distinct (map fst (vault_notes (db e)))" "distinct (map fst (vault_attachments (db e)))"
  shows "map_of (inventory e) = map_of (vault_notes (db e)) ++ map_of (vault_attachments (db e))"
proof -
  have a: "map_of (rev (putAll [] (vault_notes (db e)))) = map_of (vault_notes (db e))"
    using map_of_rev_distinct[OF putAll_distinct[of "[]" "vault_notes (db e)"]]
      map_of_rev_distinct[OF assms(1)] by (simp add: putAll_lookup)
  have b: "map_of (rev (putAll [] (vault_attachments (db e)))) = map_of (vault_attachments (db e))"
    using map_of_rev_distinct[OF putAll_distinct[of "[]" "vault_attachments (db e)"]]
      map_of_rev_distinct[OF assms(2)] by (simp add: putAll_lookup)
  show ?thesis by (simp add: inventory_def mergeHashes_def putAll_lookup a b)
qed

lemma filter_keys: "fst ` set (filter (\<lambda>(k, v). P k) t) = {k \<in> fst ` set t. P k}"
  by (induction t) auto

lemma filter_lookup: "map_of (filter (\<lambda>(k, v). P k) t) q = (if P q then map_of t q else None)"
  by (induction t) auto

lemma filter_distinct: "distinct (map fst t) \<Longrightarrow> distinct (map fst (filter P t))"
  by (simp add: distinct_map_filter)

subsection \<open>The scan\<close>

lemma scanLocal_fst:
  "fst (scanLocal env dbH files (lh, ts)) p =
     (if p \<in> set files then (case HashFile env p of Inl err \<Rightarrow> lh p | Inr h \<Rightarrow> Some h) else lh p)"
  by (induction files arbitrary: lh ts) (auto split: sum.splits)

lemma scanLocal_snd:
  "snd (scanLocal env dbH files (lh, ts)) =
     ts @ filter (\<lambda>p. case HashFile env p of Inl err \<Rightarrow> False | Inr h \<Rightarrow> map_of dbH p \<noteq> Some h) files"
  by (induction files arbitrary: lh ts) (auto split: sum.splits)

lemma syncSet_member:
  "p \<in> set (syncSet env e dbH) \<longleftrightarrow>
     p \<in> set (collectLocalFiles env e) \<and> (\<exists>h. HashFile env p = Inr h \<and> map_of dbH p \<noteq> Some h)"
  by (auto simp add: syncSet_def scanLocal_snd split: sum.splits)

lemma deleteSet_member:
  "p \<in> set (deleteSet env e dbH) \<longleftrightarrow>
     p \<in> fst ` set dbH \<and> \<not> (p \<in> set (collectLocalFiles env e) \<and> (\<exists>h. HashFile env p = Inr h))"
  by (auto simp add: deleteSet_def findDeleted_def scanLocal_fst split: sum.splits)

lemma sets_config:
  "config e2 = config e \<Longrightarrow> syncSet env e2 dbH = syncSet env e dbH"
  "config e2 = config e \<Longrightarrow> deleteSet env e2 dbH = deleteSet env e dbH"
  by (simp_all add: syncSet_def deleteSet_def collectLocalFiles_def)

section \<open>Full reconciliation: phases\<close>

subsection \<open>The delete phase\<close>

lemma fold_RemoveFileState_Files:
  "Files (state (fold RemoveFileState ps st)) q =
     (if q \<in> set ps then None else Files (state st) q)"
  by (induction ps arbitrary: st) (auto simp add: RemoveFileState_def)

lemma deleteRemoved_fixed:
  "config (deleteRemoved env td e) = config e"
  "maxBinarySize (deleteRemoved env td e) = maxBinarySize e"
  "retryQueue (deleteRemoved env td e) = retryQueue e"
  by (simp_all add: deleteRemoved_def Let_def)

lemma deleteRemoved_Files:
  "Files (state (tracker (deleteRemoved env td e))) q =
     (if q \<in> set td then None else Files (state (tracker e)) q)"
  by (simp add: deleteRemoved_def Let_def fold_RemoveFileState_Files)

lemma deleteRemoved_calls:
  "calls (db (deleteRemoved env td e)) =
     calls (db e)
     @ (if filter isMarkdown td \<noteq> [] then [BatchDeleteNotesCall (filter isMarkdown td)] else [])
     @ (if filter (\<lambda>p. \<not> isMarkdown p) td \<noteq> []
        then [BatchDeleteAttachmentsCall (filter (\<lambda>p. \<not> isMarkdown p) td)] else [])"
  by (simp add: deleteRemoved_def Let_def BatchDeleteNotes_def BatchDeleteAttachments_def)

lemma deleteRemoved_notes:
  "vault_notes (db (deleteRemoved env td e)) =
     (if filter isMarkdown td \<noteq> [] \<and> \<not> dbFails env (BatchDeleteNotesCall (filter isMarkdown td))
      then filter (\<lambda>(k, v). k \<notin> set (filter isMarkdown td)) (vault_notes (db e))
      else vault_notes (db e))"
  by (simp add: deleteRemoved_def Let_def BatchDeleteNotes_def BatchDeleteAttachments_def)

lemma deleteRemoved_attachments:
  "vault_attachments (db (deleteRemoved env td e)) =
     (if filter (\<lambda>p. \<not> isMarkdown p) td \<noteq> [] \<and>
         \<not> dbFails env (BatchDeleteAttachmentsCall (filter (\<lambda>p. \<not> isMarkdown p) td))
      then filter (\<lambda>(k, v). k \<notin> set (filter (\<lambda>p. \<not> isMarkdown p) td)) (vault_attachments (db e))
      else vault_attachments (db e))"
  by (simp add: deleteRemoved_def Let_def BatchDeleteNotes_def BatchDeleteAttachments_def)

lemma deleteRemoved_other:
  "q \<notin> set td \<Longrightarrow> pathView q (deleteRemoved env td e) = pathView q e"
  by (simp add: pathView_def deleteRemoved_fixed deleteRemoved_Files deleteRemoved_notes
      deleteRemoved_attachments filter_lookup)

lemma deleteRemoved_Nil: "deleteRemoved env [] e = e"
  by (simp add: deleteRemoved_def)

subsection \<open>A run whose two inventory queries succeed\<close>

lemma afterQueries_simps [simp]:
  "config (afterQueries e) = config e" "maxBinarySize (afterQueries e) = maxBinarySize e"
  "retryQueue (afterQueries e) = retryQueue e" "tracker (afterQueries e) = tracker e"
  "vault_notes (db (afterQueries e)) = vault_notes (db e)"
  "vault_attachments (db (afterQueries e)) = vault_attachments (db e)"
  "pathView p (afterQueries e) = pathView p e"
  by (simp_all add: afterQueries_def pathView_def)

lemma FullReconcile_run:
  fixes env :: Env and e :: Engine and dk :: disk
  assumes qn: "\<not> dbFails env GetAllNoteHashesCall" and qa: "\<not> dbFails env GetAllAttachmentHashesCall"
  defines "e4 \<equiv> deleteRemoved env (deleteSet env e (inventory e))
                   (syncLoop env (syncSet env e (inventory e)) (afterQueries e))"
  shows "fst (FullReconcile env (e, dk)) = None"
    and "db (fst (snd (FullReconcile env (e, dk)))) = db e4"
    and "retryQueue (fst (snd (FullReconcile env (e, dk)))) = retryQueue e4"
    and "config (fst (snd (FullReconcile env (e, dk)))) = config e4"
    and "maxBinarySize (fst (snd (FullReconcile env (e, dk)))) = maxBinarySize e4"
    and "Files (state (tracker (fst (snd (FullReconcile env (e, dk)))))) = Files (state (tracker e4))"
proof -
  let ?e2 = "afterQueries e"
  let ?inv = "inventory e"
  have cfg: "config ?e2 = config e" by simp
  have sets: "syncSet env ?e2 ?inv = syncSet env e ?inv" "deleteSet env ?e2 ?inv = deleteSet env e ?inv"
    using sets_config[OF cfg] by simp_all
  have l3: "(if syncSet env e ?inv \<noteq> [] then syncLoop env (syncSet env e ?inv) ?e2 else ?e2)
      = syncLoop env (syncSet env e ?inv) ?e2" by simp
  have l4: "(if deleteSet env e ?inv \<noteq> [] then deleteRemoved env (deleteSet env e ?inv) x else x)
      = deleteRemoved env (deleteSet env e ?inv) x" for x
    by (simp add: deleteRemoved_Nil)
  have fr: "FullReconcile env (e, dk) =
     (case Save env (tracker (e4\<lparr>tracker := SetLastFullSync (Now env) (tracker e4)\<rparr>)) dk of
        (err, st', dk') \<Rightarrow> (None, e4\<lparr>tracker := st'\<rparr>, dk'))"
    using qn qa
    by (simp add: FullReconcile_def GetAllNoteHashes_def GetAllAttachmentHashes_def Let_def
        inventory_def[symmetric] afterQueries_def[symmetric] sets l3 l4 e4_def deleteRemoved_Nil)
  have sv: "state (fst (snd (Save env st dk))) = state st" for st
    by (simp add: Save_def os_WriteFile_def split: sum.splits write_outcome.splits)
  obtain err st' dk' where s: "Save env (SetLastFullSync (Now env) (tracker e4)) dk = (err, st', dk')"
    by (cases "Save env (SetLastFullSync (Now env) (tracker e4)) dk") auto
  have st': "state st' = state (SetLastFullSync (Now env) (tracker e4))"
    using sv[of "SetLastFullSync (Now env) (tracker e4)"] s by simp
  show "fst (FullReconcile env (e, dk)) = None" using fr s by simp
  show "db (fst (snd (FullReconcile env (e, dk)))) = db e4" using fr s by simp
  show "retryQueue (fst (snd (FullReconcile env (e, dk)))) = retryQueue e4" using fr s by simp
  show "config (fst (snd (FullReconcile env (e, dk)))) = config e4" using fr s by simp
  show "maxBinarySize (fst (snd (FullReconcile env (e, dk)))) = maxBinarySize e4" using fr s by simp
  show "Files (state (tracker (fst (snd (FullReconcile env (e, dk)))))) = Files (state (tracker e4))"
    using fr s st' by (simp add: SetLastFullSync_def)
qed

section \<open>Full reconciliation: properties\<close>




lemma isMarkdown_examples:
  "isMarkdown ''a.md''" "isMarkdown ''b.md''" "isMarkdown ''c.md''" "\<not> isMarkdown ''big.png''"
  by (simp_all add: isMarkdown_def HasSuffix_def ToLower_def toLowerChar_def)

lemma exEnv_localFiles:
  "collectLocalFiles exEnv exEngine = [''a.md'', ''b.md'', ''big.png'', ''c.md'']"
  "collectLocalFiles exEnvUnreadable exEngine = [''a.md'', ''b.md'', ''big.png'', ''c.md'']"
  by (simp_all add: collectLocalFiles_def exEnv_def exEnvUnreadable_def exEngine_def
      shouldIgnore_def childRel_def)


lemma syncLoop_calls_prefix:
  "\<exists>cs. calls (db (syncLoop env ps e)) = calls (db e) @ cs"
proof (induction ps arbitrary: e)
  case Nil
  then show ?case by simp
next
  case (Cons p ps)
  obtain r e1 where u: "upsertFile env p e = (r, e1)" by (cases "upsertFile env p e")
  define e1' where "e1' = (case r of None \<Rightarrow> e1 | Some err \<Rightarrow> e1\<lparr>retryQueue := (retryQueue e1)(p \<mapsto> 0)\<rparr>)"
  have step: "syncLoop env (p # ps) e = syncLoop env ps e1'"
    using u by (simp add: e1'_def split: option.splits)
  have c1: "calls (db e1') = calls (db e) @ newCalls env p e"
    using upsertFile_calls[of env p e] u by (simp add: e1'_def split: option.splits)
  from Cons.IH[of e1'] obtain cs where "calls (db (syncLoop env ps e1')) = calls (db e1') @ cs" ..
  then show ?case unfolding step using c1 by simp
qed

lemma syncLoop_calls_member:
  "q \<in> set ps \<Longrightarrow> set (newCalls env q e) \<subseteq> set (calls (db (syncLoop env ps e)))"
proof (induction ps arbitrary: e)
  case Nil
  then show ?case by simp
next
  case (Cons p ps)
  obtain r e1 where u: "upsertFile env p e = (r, e1)" by (cases "upsertFile env p e")
  define e1' where "e1' = (case r of None \<Rightarrow> e1 | Some err \<Rightarrow> e1\<lparr>retryQueue := (retryQueue e1)(p \<mapsto> 0)\<rparr>)"
  have step: "syncLoop env (p # ps) e = syncLoop env ps e1'"
    using u by (simp add: e1'_def split: option.splits)
  have c1: "calls (db e1') = calls (db e) @ newCalls env p e"
    using upsertFile_calls[of env p e] u by (simp add: e1'_def split: option.splits)
  have v1': "pathView x e1' = pathView x e1" for x by (simp add: e1'_def split: option.splits)
  show ?case
  proof (cases "q = p")
    case True
    obtain cs where "calls (db (syncLoop env ps e1')) = calls (db e1') @ cs"
      using syncLoop_calls_prefix[of env ps e1'] ..
    then show ?thesis unfolding step using c1 True by auto
  next
    case False
    with Cons.prems have qps: "q \<in> set ps" by simp
    have vq: "pathView q e1' = pathView q e"
      using v1'[of q] upsertFile_other[OF False, of env e] u by simp
    from Cons.IH[OF qps, of e1'] upsertFile_local[OF vq, of env] show ?thesis
      unfolding step by simp
  qed
qed

lemma exEnvFailing_localFiles:
  "collectLocalFiles exEnvFailing exEngine = [''a.md'', ''b.md'', ''big.png'', ''c.md'']"
  by (simp add: collectLocalFiles_def exEnv_def exEnvFailing_def exEngine_def
      shouldIgnore_def childRel_def)

lemma exEngine_inventory: "inventory exEngine = [(''a.md'', ''h-a'')]"
  by (simp add: inventory_def mergeHashes_def putAll_def exEngine_def)

lemma exEnvFailing_syncSet:
  "syncSet exEnvFailing exEngine (inventory exEngine) = [''b.md'', ''big.png'', ''c.md'']"
  by (simp add: syncSet_def exEnvFailing_localFiles exEngine_inventory)
     (simp add: exEnvFailing_def exEnv_def)

lemma exEnvFailing_upserts:
  "fst (upsertFile exEnvFailing ''b.md'' exEngine) = Some ErrDB"
  "fst (upsertFile exEnvFailing ''big.png'' exEngine) = None"
  "fst (upsertFile exEnvFailing ''c.md'' exEngine) = None"
  "map_of (vault_notes (db (snd (upsertFile exEnvFailing ''c.md'' exEngine)))) ''c.md'' = Some ''h-c''"
  using isMarkdown_examples
  by (simp_all add: upsertFile_def exEnvFailing_def exEnv_def exEngine_def exTracker_def exState_def
      shouldIgnore_def NeedsSync_def syncNote_def syncAttachment_def UpsertNote_def
      UpsertAttachment_def)

text \<open>
  Claim C1, as stated, fails on the retry count: with three files to sync of which the
  upsert of \<open>b.md\<close> alone fails, \<open>b.md\<close> is in the retry queue with count 0, not 1.
\<close>

theorem retry_count_counterexample:
  "syncSet exEnvFailing exEngine (inventory exEngine) = [''b.md'', ''big.png'', ''c.md''] \<and>
   fst (upsertFile exEnvFailing ''b.md'' exEngine) = Some ErrDB \<and>
   fst (upsertFile exEnvFailing ''big.png'' exEngine) = None \<and>
   fst (upsertFile exEnvFailing ''c.md'' exEngine) = None \<and>
   retryQueue (fst (snd (FullReconcile exEnvFailing (exEngine, exDisk)))) ''b.md'' = Some 0 \<and>
   retryQueue (fst (snd (FullReconcile exEnvFailing (exEngine, exDisk)))) ''b.md'' \<noteq> Some 1"
proof -
  have qn: "\<not> dbFails exEnvFailing GetAllNoteHashesCall"
    and qa: "\<not> dbFails exEnvFailing GetAllAttachmentHashesCall"
    by (simp_all add: exEnvFailing_def)
  have m: "''b.md'' \<in> set (syncSet exEnvFailing exEngine (inventory exEngine))"
    by (simp add: exEnvFailing_syncSet)
  have "fst (upsertFile exEnvFailing ''b.md'' (afterQueries exEngine)) = Some ErrDB"
    using upsertFile_local[of "''b.md''" "afterQueries exEngine" exEngine exEnvFailing]
      exEnvFailing_upserts(1) by simp
  with syncLoop_member[OF m, of exEnvFailing "afterQueries exEngine"]
  have "retryQueue (syncLoop exEnvFailing (syncSet exEnvFailing exEngine (inventory exEngine))
          (afterQueries exEngine)) ''b.md'' = Some 0" by simp
  then have "retryQueue (fst (snd (FullReconcile exEnvFailing (exEngine, exDisk)))) ''b.md'' = Some 0"
    using FullReconcile_run(3)[OF qn qa, of exEngine exDisk] by (simp add: deleteRemoved_fixed)
  then show ?thesis using exEnvFailing_syncSet exEnvFailing_upserts by simp
qed


text \<open>
  Claim C1, amended. In a run whose two inventory queries succeed and in which exactly
  one file of the sync set fails to upsert, the run returns no error, the failing path is
  in the retry queue with retry count 0, and every other file of the sync set is
  processed: its retry entry is untouched, its cache entry and its rows are those its
  own upsert produces, and the store calls of its upsert are in the call log.
\<close>

theorem partial_failure_isolation:
  fixes env :: Env and e :: Engine and dk :: disk
  defines "final \<equiv> fst (snd (FullReconcile env (e, dk)))"
  assumes qn: "\<not> dbFails env GetAllNoteHashesCall"
    and qa: "\<not> dbFails env GetAllAttachmentHashesCall"
    and f: "f \<in> set (syncSet env e (inventory e))"
    and fails: "fst (upsertFile env f e) \<noteq> None"
    and others: "\<forall>q \<in> set (syncSet env e (inventory e)). q \<noteq> f \<longrightarrow> fst (upsertFile env q e) = None"
  shows "fst (FullReconcile env (e, dk)) = None \<and>
         retryQueue final f = Some 0 \<and>
         (\<forall>q \<in> set (syncSet env e (inventory e)). q \<noteq> f \<longrightarrow>
            retryQueue final q = retryQueue e q \<and>
            Files (state (tracker final)) q = Files (state (tracker (snd (upsertFile env q e)))) q \<and>
            map_of (vault_notes (db final)) q = map_of (vault_notes (db (snd (upsertFile env q e)))) q \<and>
            map_of (vault_attachments (db final)) q =
              map_of (vault_attachments (db (snd (upsertFile env q e)))) q \<and>
            set (calls (db (snd (upsertFile env q e)))) \<subseteq> set (calls (db final)))"
proof -
  let ?ts = "syncSet env e (inventory e)"
  let ?td = "deleteSet env e (inventory e)"
  let ?e2 = "afterQueries e"
  let ?e3 = "syncLoop env ?ts ?e2"
  let ?e4 = "deleteRemoved env ?td ?e3"
  note run = FullReconcile_run[OF qn qa, of e dk]
  have same: "pathView q final = pathView q ?e4" for q
    unfolding final_def using run(2,4,5,6) by (simp add: pathView_def)
  have rqf: "retryQueue final = retryQueue ?e3"
    unfolding final_def using run(3) by (simp add: deleteRemoved_fixed)
  have cf: "calls (db final) = calls (db ?e4)" unfolding final_def using run(2) by simp
  have loc: "fst (upsertFile env q ?e2) = fst (upsertFile env q e)"
       "pathView q (snd (upsertFile env q ?e2)) = pathView q (snd (upsertFile env q e))"
       "newCalls env q ?e2 = newCalls env q e" for q
    using upsertFile_local[of q ?e2 e env] by simp_all
  have each: "retryQueue final q = (if fst (upsertFile env q e) = None then retryQueue e q else Some 0) \<and>
      pathView q final = pathView q (snd (upsertFile env q e)) \<and>
      set (calls (db (snd (upsertFile env q e)))) \<subseteq> set (calls (db final))"
    if q: "q \<in> set ?ts" for q
  proof -
    have ntd: "q \<notin> set ?td" using q by (auto simp add: syncSet_member deleteSet_member)
    have v: "pathView q final = pathView q (snd (upsertFile env q e))"
      using same[of q] deleteRemoved_other[OF ntd, of env ?e3]
        syncLoop_member[OF q, of env ?e2] loc(2)[of q] by simp
    have r: "retryQueue final q = (if fst (upsertFile env q e) = None then retryQueue e q else Some 0)"
      using rqf syncLoop_member[OF q, of env ?e2] loc(1)[of q] by simp
    obtain cs where cs: "calls (db ?e3) = calls (db ?e2) @ cs"
      using syncLoop_calls_prefix[of env ?ts ?e2] ..
    have "set (calls (db e)) \<subseteq> set (calls (db ?e3))" using cs by (auto simp add: afterQueries_def)
    moreover have "set (newCalls env q e) \<subseteq> set (calls (db ?e3))"
      using syncLoop_calls_member[OF q, of env ?e2] loc(3)[of q] by simp
    ultimately have "set (calls (db (snd (upsertFile env q e)))) \<subseteq> set (calls (db ?e3))"
      by (simp add: upsertFile_calls)
    then have "set (calls (db (snd (upsertFile env q e)))) \<subseteq> set (calls (db final))"
      unfolding cf deleteRemoved_calls by auto
    with v r show ?thesis by simp
  qed
  have a: "fst (FullReconcile env (e, dk)) = None" using run(1) .
  have b: "retryQueue final f = Some 0" using each[OF f] fails by simp
  have c: "retryQueue final q = retryQueue e q \<and>
            Files (state (tracker final)) q = Files (state (tracker (snd (upsertFile env q e)))) q \<and>
            map_of (vault_notes (db final)) q = map_of (vault_notes (db (snd (upsertFile env q e)))) q \<and>
            map_of (vault_attachments (db final)) q =
              map_of (vault_attachments (db (snd (upsertFile env q e)))) q \<and>
            set (calls (db (snd (upsertFile env q e)))) \<subseteq> set (calls (db final))"
    if "q \<in> set ?ts" "q \<noteq> f" for q
    using each[OF that(1)] others that by (simp add: pathView_def)
  show ?thesis using a b c by blast
qed

theorem partial_failure_isolation_witness:
  "retryQueue (fst (snd (FullReconcile exEnvFailing (exEngine, exDisk)))) ''b.md'' = Some 0 \<and>
   retryQueue (fst (snd (FullReconcile exEnvFailing (exEngine, exDisk)))) ''c.md'' = None \<and>
   map_of (vault_notes (db (fst (snd (FullReconcile exEnvFailing (exEngine, exDisk)))))) ''c.md''
     = Some ''h-c''"
  using partial_failure_isolation [of exEnvFailing "''b.md''" exEngine exDisk]
    exEnvFailing_syncSet exEnvFailing_upserts
  by (simp add: exEnvFailing_def exEngine_def)

section \<open>Two consecutive runs\<close>

lemma partitionedBySuffix_calls [simp]: "partitionedBySuffix (d\<lparr>calls := cs\<rparr>) = partitionedBySuffix d"
  by (simp add: partitionedBySuffix_def schemaConstraints_def)

lemma upsertFile_wf: "partitionedBySuffix (db e) \<Longrightarrow> partitionedBySuffix (db (snd (upsertFile env p e)))"
  by (cases rule: upsertFile_cases[of p e env];
      simp add: partitionedBySuffix_def schemaConstraints_def distinct_update dom_update)

lemma upsertFile_keys:
  "fst ` set (vault_notes (db (snd (upsertFile env p e)))) \<subseteq> fst ` set (vault_notes (db e)) \<union> {p}"
  "fst ` set (vault_attachments (db (snd (upsertFile env p e))))
     \<subseteq> fst ` set (vault_attachments (db e)) \<union> {p}"
  by (cases rule: upsertFile_cases[of p e env]; simp add: dom_update; blast)+

lemma syncLoop_wf: "partitionedBySuffix (db e) \<Longrightarrow> partitionedBySuffix (db (syncLoop env ps e))"
proof (induction ps arbitrary: e)
  case Nil
  then show ?case by simp
next
  case (Cons p ps)
  obtain r e1 where u: "upsertFile env p e = (r, e1)" by (cases "upsertFile env p e")
  have "partitionedBySuffix (db e1)" using upsertFile_wf[OF Cons.prems, of env p] u by simp
  then show ?case using Cons.IH[of e1] Cons.IH[of "e1\<lparr>retryQueue := (retryQueue e1)(p \<mapsto> 0)\<rparr>"] u
    by (simp split: option.splits)
qed

lemma syncLoop_keys:
  "fst ` set (vault_notes (db (syncLoop env ps e))) \<subseteq> fst ` set (vault_notes (db e)) \<union> set ps \<and>
   fst ` set (vault_attachments (db (syncLoop env ps e)))
     \<subseteq> fst ` set (vault_attachments (db e)) \<union> set ps"
proof (induction ps arbitrary: e)
  case Nil
  then show ?case by simp
next
  case (Cons p ps)
  obtain r e1 where u: "upsertFile env p e = (r, e1)" by (cases "upsertFile env p e")
  define e1' where "e1' = (case r of None \<Rightarrow> e1 | Some err \<Rightarrow> e1\<lparr>retryQueue := (retryQueue e1)(p \<mapsto> 0)\<rparr>)"
  have step: "syncLoop env (p # ps) e = syncLoop env ps e1'"
    using u by (simp add: e1'_def split: option.splits)
  have d: "db e1' = db e1" by (simp add: e1'_def split: option.splits)
  have k: "fst ` set (vault_notes (db e1)) \<subseteq> fst ` set (vault_notes (db e)) \<union> {p}"
    "fst ` set (vault_attachments (db e1)) \<subseteq> fst ` set (vault_attachments (db e)) \<union> {p}"
    using upsertFile_keys[of env p e] u by simp_all
  have n1: "fst ` set (vault_notes (db e1)) \<union> set ps
      \<subseteq> fst ` set (vault_notes (db e)) \<union> set (p # ps)"
    using k(1) by auto
  have a1: "fst ` set (vault_attachments (db e1)) \<union> set ps
      \<subseteq> fst ` set (vault_attachments (db e)) \<union> set (p # ps)"
    using k(2) by auto
  from Cons.IH[of e1'] have
    i1: "fst ` set (vault_notes (db (syncLoop env ps e1'))) \<subseteq> fst ` set (vault_notes (db e1)) \<union> set ps"
    and i2: "fst ` set (vault_attachments (db (syncLoop env ps e1')))
      \<subseteq> fst ` set (vault_attachments (db e1)) \<union> set ps"
    unfolding d by simp_all
  show ?case unfolding step using order_trans[OF i1 n1] order_trans[OF i2 a1] by (rule conjI)
qed

lemma deleteRemoved_wf: "partitionedBySuffix (db e) \<Longrightarrow> partitionedBySuffix (db (deleteRemoved env td e))"
  by (auto simp add: partitionedBySuffix_def schemaConstraints_def deleteRemoved_notes deleteRemoved_attachments distinct_map_filter)

lemma deleteRemoved_notes_nofail:
  assumes "\<forall>c. \<not> dbFails env c"
  shows "vault_notes (db (deleteRemoved env td e)) =
     filter (\<lambda>(k, v). k \<notin> set (filter isMarkdown td)) (vault_notes (db e))"
proof (cases "filter isMarkdown td = []")
  case True
  then show ?thesis by (simp add: deleteRemoved_notes)
next
  case False
  then show ?thesis using assms by (simp add: deleteRemoved_notes)
qed

lemma deleteRemoved_attachments_nofail:
  assumes "\<forall>c. \<not> dbFails env c"
  shows "vault_attachments (db (deleteRemoved env td e)) =
     filter (\<lambda>(k, v). k \<notin> set (filter (\<lambda>p. \<not> isMarkdown p) td)) (vault_attachments (db e))"
proof (cases "filter (\<lambda>p. \<not> isMarkdown p) td = []")
  case True
  then show ?thesis by (simp add: deleteRemoved_attachments)
next
  case False
  then show ?thesis using assms by (simp add: deleteRemoved_attachments)
qed

lemma key_survives_filter:
  "p \<in> fst ` set (filter (\<lambda>(k, v). k \<notin> S) t) \<Longrightarrow> p \<in> fst ` set t \<and> p \<notin> S"
  by (induction t) (auto split: if_splits)

text \<open>The engine after a run whose calls all succeed, path by path.\<close>

lemma first_run_facts:
  fixes env :: Env and e :: Engine and dk :: disk
  defines "e1 \<equiv> fst (snd (FullReconcile env (e, dk)))"
  assumes nofail: "\<forall>c. \<not> dbFails env c" and wf: "partitionedBySuffix (db e)"
  shows "config e1 = config e"
    and "partitionedBySuffix (db e1)"
    and "\<And>p. p \<notin> set (syncSet env e (inventory e)) \<Longrightarrow> p \<notin> set (deleteSet env e (inventory e))
           \<Longrightarrow> pathView p e1 = pathView p e"
    and "\<And>p. p \<in> set (syncSet env e (inventory e)) \<Longrightarrow> snd (upsertFile env p e1) = e1"
    and "\<And>p. p \<in> fst ` set (vault_notes (db e1)) \<union> fst ` set (vault_attachments (db e1))
           \<Longrightarrow> p \<in> set (collectLocalFiles env e) \<and> (\<exists>h. HashFile env p = Inr h)"
proof -
  let ?ts = "syncSet env e (inventory e)"
  let ?td = "deleteSet env e (inventory e)"
  let ?e2 = "afterQueries e"
  let ?e3 = "syncLoop env ?ts ?e2"
  let ?e4 = "deleteRemoved env ?td ?e3"
  have qn: "\<not> dbFails env GetAllNoteHashesCall" and qa: "\<not> dbFails env GetAllAttachmentHashesCall"
    using nofail by simp_all
  note run = FullReconcile_run[OF qn qa, of e dk]
  have dbe: "db e1 = db ?e4" unfolding e1_def using run(2) .
  have same: "pathView q e1 = pathView q ?e4" for q
    unfolding e1_def using run(2,4,5,6) by (simp add: pathView_def)
  show cfg: "config e1 = config e"
    unfolding e1_def using run(4) by (simp add: deleteRemoved_fixed syncLoop_fixed)
  have wf2: "partitionedBySuffix (db ?e2)" using wf by (simp add: afterQueries_def)
  have wf3: "partitionedBySuffix (db ?e3)" using syncLoop_wf[OF wf2] .
  show "partitionedBySuffix (db e1)" unfolding dbe using deleteRemoved_wf[OF wf3] .
  show "pathView p e1 = pathView p e" if "p \<notin> set ?ts" "p \<notin> set ?td" for p
    using same[of p] deleteRemoved_other[OF that(2), of env ?e3] syncLoop_other[OF that(1), of env ?e2]
    by simp
  show "snd (upsertFile env p e1) = e1" if p: "p \<in> set ?ts" for p
  proof -
    have ntd: "p \<notin> set ?td" using p by (auto simp add: syncSet_member deleteSet_member)
    have "pathView p e1 = pathView p (snd (upsertFile env p ?e2))"
      using same[of p] deleteRemoved_other[OF ntd, of env ?e3] syncLoop_member[OF p, of env ?e2]
      by simp
    from upsertFile_settles[OF nofail this] show ?thesis .
  qed
  show "p \<in> set (collectLocalFiles env e) \<and> (\<exists>h. HashFile env p = Inr h)"
    if p: "p \<in> fst ` set (vault_notes (db e1)) \<union> fst ` set (vault_attachments (db e1))" for p
  proof (rule ccontr)
    assume nl: "\<not> (p \<in> set (collectLocalFiles env e) \<and> (\<exists>h. HashFile env p = Inr h))"
    then have nts: "p \<notin> set ?ts" by (auto simp add: syncSet_member)
    have keys3: "fst ` set (vault_notes (db ?e3)) \<subseteq> fst ` set (vault_notes (db e)) \<union> set ?ts"
      "fst ` set (vault_attachments (db ?e3)) \<subseteq> fst ` set (vault_attachments (db e)) \<union> set ?ts"
      using syncLoop_keys[of env ?ts ?e2] by simp_all
    from p show False
    proof
      assume "p \<in> fst ` set (vault_notes (db e1))"
      then have "p \<in> fst ` set (filter (\<lambda>(k, v). k \<notin> set (filter isMarkdown ?td)) (vault_notes (db ?e3)))"
        unfolding dbe deleteRemoved_notes_nofail[OF nofail] .
      from key_survives_filter[OF this]
      have k3: "p \<in> fst ` set (vault_notes (db ?e3))" and nf: "p \<notin> set (filter isMarkdown ?td)"
        by simp_all
      have md: "isMarkdown p" using wf3 k3 unfolding partitionedBySuffix_def schemaConstraints_def by blast
      have "p \<in> fst ` set (vault_notes (db e))" using k3 keys3(1) nts by blast
      then have "p \<in> set ?td" using nl by (simp add: deleteSet_member inventory_keys)
      with md nf show False by simp
    next
      assume "p \<in> fst ` set (vault_attachments (db e1))"
      then have "p \<in> fst ` set (filter (\<lambda>(k, v). k \<notin> set (filter (\<lambda>p. \<not> isMarkdown p) ?td))
                     (vault_attachments (db ?e3)))"
        unfolding dbe deleteRemoved_attachments_nofail[OF nofail] .
      from key_survives_filter[OF this]
      have k3: "p \<in> fst ` set (vault_attachments (db ?e3))"
        and nf: "p \<notin> set (filter (\<lambda>p. \<not> isMarkdown p) ?td)"
        by simp_all
      have md: "\<not> isMarkdown p" using wf3 k3 unfolding partitionedBySuffix_def schemaConstraints_def by blast
      have "p \<in> fst ` set (vault_attachments (db e))" using k3 keys3(2) nts by blast
      then have "p \<in> set ?td" using nl by (simp add: deleteSet_member inventory_keys)
      with md nf show False by simp
    qed
  qed
qed


text \<open>
  Claim C5, amended. Take a store that meets the schema and holds no note path in its
  attachments table, and a run in which no store call fails. A second run in the same
  surroundings then has an empty delete set, calls the store for the two inventory
  queries only (no upsert, no delete) and leaves the tables and the cache entries as
  they are; its sync set is a part of the first run's, and each file in it is one whose
  upsert changes nothing.
\<close>

theorem second_run_changes_nothing:
  fixes env :: Env and e :: Engine and dk :: disk
  defines "e1 \<equiv> fst (snd (FullReconcile env (e, dk)))"
    and "dk1 \<equiv> snd (snd (FullReconcile env (e, dk)))"
  defines "e2 \<equiv> fst (snd (FullReconcile env (e1, dk1)))"
  assumes nofail: "\<forall>c. \<not> dbFails env c" and wf: "partitionedBySuffix (db e)"
  shows "deleteSet env e1 (inventory e1) = [] \<and>
         db e2 = (db e1)\<lparr>calls := calls (db e1) @ [GetAllNoteHashesCall, GetAllAttachmentHashesCall]\<rparr> \<and>
         Files (state (tracker e2)) = Files (state (tracker e1)) \<and>
         set (syncSet env e1 (inventory e1)) \<subseteq> set (syncSet env e (inventory e)) \<and>
         (\<forall>p \<in> set (syncSet env e1 (inventory e1)). snd (upsertFile env p e1) = e1)"
proof -
  let ?ts1 = "syncSet env e (inventory e)"
  let ?td1 = "deleteSet env e (inventory e)"
  let ?ts2 = "syncSet env e1 (inventory e1)"
  let ?td2 = "deleteSet env e1 (inventory e1)"
  note f = first_run_facts[OF nofail wf, where dk = dk, folded e1_def]
  have lf: "collectLocalFiles env e1 = collectLocalFiles env e"
    using f(1) by (simp add: collectLocalFiles_def)
  have wfd: "distinct (map fst (vault_notes (db e)))" "distinct (map fst (vault_attachments (db e)))"
    "distinct (map fst (vault_notes (db e1)))" "distinct (map fst (vault_attachments (db e1)))"
    using wf f(2) by (simp_all add: partitionedBySuffix_def schemaConstraints_def)
  have td2: "?td2 = []"
  proof -
    have "p \<notin> set ?td2" for p
      using f(5)[of p] by (auto simp add: deleteSet_member inventory_keys lf)
    then show ?thesis by (cases ?td2) auto
  qed
  have sub: "set ?ts2 \<subseteq> set ?ts1"
  proof
    fix p assume p2: "p \<in> set ?ts2"
    then obtain h where loc: "p \<in> set (collectLocalFiles env e)" and h: "HashFile env p = Inr h"
      and inv1: "map_of (inventory e1) p \<noteq> Some h"
      by (auto simp add: syncSet_member lf)
    show "p \<in> set ?ts1"
    proof (rule ccontr)
      assume n1: "p \<notin> set ?ts1"
      have ntd: "p \<notin> set ?td1" using loc h by (simp add: deleteSet_member)
      have "pathView p e1 = pathView p e" using f(3)[OF n1 ntd] .
      then have "map_of (inventory e1) p = map_of (inventory e) p"
        by (auto simp add: inventory_lookup[OF wfd(1,2)] inventory_lookup[OF wfd(3,4)] pathView_def
            map_add_def split: option.splits)
      moreover have "map_of (inventory e) p = Some h"
        using n1 loc h by (simp add: syncSet_member)
      ultimately show False using inv1 by simp
    qed
  qed
  have still1: "snd (upsertFile env p e1) = e1" if "p \<in> set ?ts2" for p
    using f(4)[of p] sub that by blast
  have qn: "\<not> dbFails env GetAllNoteHashesCall" and qa: "\<not> dbFails env GetAllAttachmentHashesCall"
    using nofail by simp_all
  note run2 = FullReconcile_run[OF qn qa, of e1 dk1, folded e2_def]
  have still2: "\<forall>p \<in> set ?ts2. snd (upsertFile env p (afterQueries e1)) = afterQueries e1"
    using upsertFile_still_local[of _ "afterQueries e1" e1 env] still1 by simp
  from syncLoop_still[OF still2]
  have e3: "db (syncLoop env ?ts2 (afterQueries e1)) = db (afterQueries e1)"
    "tracker (syncLoop env ?ts2 (afterQueries e1)) = tracker e1" by simp_all
  have dbe2: "db e2 = db (afterQueries e1)"
    using run2(2) e3(1) by (simp add: td2 deleteRemoved_Nil)
  have fe2: "Files (state (tracker e2)) = Files (state (tracker e1))"
    using run2(6) e3(2) by (simp add: td2 deleteRemoved_Nil)
  show ?thesis using td2 dbe2 fe2 sub still1 by (simp add: afterQueries_def)
qed

lemma run_path_view:
  fixes env :: Env and e :: Engine and dk :: disk
  assumes qn: "\<not> dbFails env GetAllNoteHashesCall"
    and qa: "\<not> dbFails env GetAllAttachmentHashesCall"
    and q: "q \<in> set (syncSet env e (inventory e))"
  shows "pathView q (fst (snd (FullReconcile env (e, dk)))) = pathView q (snd (upsertFile env q e))"
proof -
  let ?ts = "syncSet env e (inventory e)"
  let ?td = "deleteSet env e (inventory e)"
  let ?e2 = "afterQueries e"
  let ?e3 = "syncLoop env ?ts ?e2"
  let ?e4 = "deleteRemoved env ?td ?e3"
  note run = FullReconcile_run[OF qn qa, of e dk]
  have same: "pathView q (fst (snd (FullReconcile env (e, dk)))) = pathView q ?e4"
    using run(2,4,5,6) by (simp add: pathView_def)
  have ntd: "q \<notin> set ?td" using q by (auto simp add: syncSet_member deleteSet_member)
  have "pathView q (snd (upsertFile env q ?e2)) = pathView q (snd (upsertFile env q e))"
    using upsertFile_local[of q ?e2 e env] by simp
  then show ?thesis
    using same deleteRemoved_other[OF ntd, of env ?e3] syncLoop_member[OF q, of env ?e2] by simp
qed

lemma exEnv_syncSet:
  "syncSet exEnv exEngine (inventory exEngine) = [''b.md'', ''big.png'', ''c.md'']"
  by (simp add: syncSet_def exEnv_localFiles exEngine_inventory) (simp add: exEnv_def)

lemma exEnv_big_upsert:
  "map_of (vault_notes (db (snd (upsertFile exEnv ''big.png'' exEngine)))) ''big.png'' = None"
  "map_of (vault_attachments (db (snd (upsertFile exEnv ''big.png'' exEngine)))) ''big.png'' = None"
  using isMarkdown_examples
  by (simp_all add: upsertFile_def exEnv_def exEngine_def exTracker_def exState_def
      shouldIgnore_def NeedsSync_def syncAttachment_def)

text \<open>
  Claim C5, as stated, fails on the sync set: the large image of the example vault is
  never stored remotely, so it is in the sync set of the second run as well.
\<close>

theorem second_sync_set_counterexample:
  "''big.png'' \<in> set (syncSet exEnv (fst (snd (FullReconcile exEnv (exEngine, exDisk))))
       (inventory (fst (snd (FullReconcile exEnv (exEngine, exDisk)))))) \<and>
   syncSet exEnv (fst (snd (FullReconcile exEnv (exEngine, exDisk))))
       (inventory (fst (snd (FullReconcile exEnv (exEngine, exDisk))))) \<noteq> []"
proof -
  let ?e1 = "fst (snd (FullReconcile exEnv (exEngine, exDisk)))"
  have qn: "\<not> dbFails exEnv GetAllNoteHashesCall" and qa: "\<not> dbFails exEnv GetAllAttachmentHashesCall"
    by (simp_all add: exEnv_def)
  have m: "''big.png'' \<in> set (syncSet exEnv exEngine (inventory exEngine))"
    by (simp add: exEnv_syncSet)
  have cfg: "config ?e1 = config exEngine"
    using FullReconcile_run(4)[OF qn qa, of exEngine exDisk]
    by (simp add: deleteRemoved_fixed syncLoop_fixed)
  have lf: "collectLocalFiles exEnv ?e1 = collectLocalFiles exEnv exEngine"
    using cfg by (simp add: collectLocalFiles_def)
  from run_path_view[OF qn qa m, of exDisk] exEnv_big_upsert
  have "map_of (vault_notes (db ?e1)) ''big.png'' = None"
    "map_of (vault_attachments (db ?e1)) ''big.png'' = None"
    by (simp_all add: pathView_def)
  then have "''big.png'' \<notin> fst ` set (inventory ?e1)"
    by (simp add: inventory_keys map_of_eq_None_iff)
  then have "map_of (inventory ?e1) ''big.png'' = None" by (simp add: map_of_eq_None_iff)
  moreover have "HashFile exEnv ''big.png'' = Inr ''h-big''" by (simp add: exEnv_def)
  ultimately have "''big.png'' \<in> set (syncSet exEnv ?e1 (inventory ?e1))"
    by (simp add: syncSet_member lf exEnv_localFiles)
  then show ?thesis by auto
qed

theorem second_run_changes_nothing_witness:
  "partitionedBySuffix (db exEngine) \<and>
   deleteSet exEnv (fst (snd (FullReconcile exEnv (exEngine, exDisk))))
     (inventory (fst (snd (FullReconcile exEnv (exEngine, exDisk))))) = [] \<and>
   db (fst (snd (FullReconcile exEnv
         (fst (snd (FullReconcile exEnv (exEngine, exDisk))),
          snd (snd (FullReconcile exEnv (exEngine, exDisk))))))) =
     (db (fst (snd (FullReconcile exEnv (exEngine, exDisk)))))
       \<lparr>calls := calls (db (fst (snd (FullReconcile exEnv (exEngine, exDisk)))))
                  @ [GetAllNoteHashesCall, GetAllAttachmentHashesCall]\<rparr>"
proof -
  have nofail: "\<forall>c. \<not> dbFails exEnv c" by (simp add: exEnv_def)
  have wf: "partitionedBySuffix (db exEngine)"
    using isMarkdown_examples by (simp add: partitionedBySuffix_def schemaConstraints_def exEngine_def)
  from second_run_changes_nothing[OF nofail wf, of exDisk] wf show ?thesis by simp
qed

end
